theory Spec2Isabelle
  imports Main "HOL-Library.Monad_Syntax" "HOL-Library.Product_Lexorder"
    "HOL-Library.List_Lexorder" "HOL-Library.Char_ord"
begin

section \<open>Problem 4: three ways to sum to n\<close>

text \<open>
  The TypeScript functions work on JavaScript numbers, which are IEEE 754 doubles.  The
  functions are called with an integer and every number they compute is then an integer
  too, so a number is modelled by an \<open>int\<close>, and the result of each operation is
  rounded to the nearest double, ties to the even significand (\<open>js_number\<close>).  An
  integer below \<open>2 ^ 53\<close> in magnitude is its own double; from there on a double has
  53 significant bits.  Magnitudes from \<open>2 ^ 1024\<close> on, where a double is \<open>Infinity\<close>,
  are outside the model.
\<close>

text \<open>
  \<open>binade m\<close> is the number of low bits that a double cannot keep of \<open>m\<close>, and
  \<open>round_even m\<close> the multiple of \<open>2 ^ binade m\<close> nearest to \<open>m\<close>, a tie going to
  the even multiple.
\<close>

function binade :: "nat \<Rightarrow> nat" where
  "binade m = (if m < 2 ^ 53 then 0 else Suc (binade (m div 2)))"
  by pat_completeness auto
termination
  by (relation "measure id") auto

declare binade.simps [simp del]

definition round_even :: "nat \<Rightarrow> nat" where
  "round_even m =
     (let e = binade m; q = m div 2 ^ e; r = m mod 2 ^ e
      in (if 2 ^ e < 2 * r \<or> (2 * r = 2 ^ e \<and> odd q) then q + 1 else q) * 2 ^ e)"

definition js_number :: "int \<Rightarrow> int" where
  "js_number x = (if x < 0 then - int (round_even (nat (- x))) else int (round_even (nat x)))"

text \<open>
  A call that never returns (the recursion of \<open>sum_to_n_a\<close> on a negative argument,
  the loop of \<open>sum_to_n_b\<close> once \<open>i++\<close> no longer changes \<open>i\<close>) is the value \<open>None\<close>.
\<close>

partial_function (option) sum_to_n_a :: "int \<Rightarrow> int option" where
  "sum_to_n_a n =
     (if n = 0 then Some 0
      else if n = 1 then Some 1
      else do { r \<leftarrow> sum_to_n_a (js_number (n - 1)); Some (js_number (n + r)) })"

text \<open>
  A cell of the array \<open>sum\<close> (here \<open>arr\<close>) holds a number; adding to a cell that was never written
  (\<open>undefined\<close>) gives \<open>NaN\<close>.  The array is sparse: a write at any index extends it.
  The result \<open>sum[n]\<close> is a number or, for a cell never written, \<open>undefined\<close> (the
  inner \<open>None\<close>).
\<close>

datatype jsnum = Num int | NaN

fun js_add :: "jsnum option \<Rightarrow> int \<Rightarrow> jsnum" where
  "js_add (Some (Num a)) i = Num (js_number (a + i))"
| "js_add _ i = NaN"

partial_function (option) sum_to_n_b_loop :: "int \<Rightarrow> int \<Rightarrow> (int \<rightharpoonup> jsnum) \<Rightarrow> (int \<rightharpoonup> jsnum) option" where
  "sum_to_n_b_loop i n arr =
     (if i \<le> n
      then sum_to_n_b_loop (js_number (i + 1)) n (arr(i \<mapsto> js_add (arr (js_number (i - 1))) i))
      else Some arr)"

definition sum_to_n_b :: "int \<Rightarrow> jsnum option option" where
  "sum_to_n_b n = map_option (\<lambda>arr. arr n) (sum_to_n_b_loop 2 n [0 \<mapsto> Num 0, 1 \<mapsto> Num 1])"

text \<open>The product \<open>n * (n + 1)\<close> is even, before and after rounding, so the division by
  two is exact.\<close>

definition sum_to_n_c :: "int \<Rightarrow> int" where
  "sum_to_n_c n = js_number (n * js_number (n + 1)) div 2"

lemma binade_safe: "m < 2 ^ 53 \<Longrightarrow> binade m = 0"
  by (subst binade.simps) simp

lemma round_even_safe: "m < 2 ^ 53 \<Longrightarrow> round_even m = m"
  by (simp add: round_even_def binade_safe)

lemma js_number_safe:
  assumes "- (2 ^ 53) < x" and "x < 2 ^ 53"
  shows "js_number x = x"
proof (cases "x < 0")
  case True
  with assms have "nat (- x) < 2 ^ 53" by (simp add: nat_less_iff)
  with True show ?thesis by (simp add: js_number_def round_even_safe)
next
  case False
  with assms have "nat x < 2 ^ 53" by (simp add: nat_less_iff)
  with False show ?thesis by (simp add: js_number_def round_even_safe)
qed

text \<open>The number the three functions are to return.\<close>

abbreviation triangle :: "int \<Rightarrow> int" where
  "triangle n \<equiv> n * (n + 1) div 2"

lemma triangle_step: "triangle (n + 1) = triangle n + (n + 1)"
proof -
  have "(n + 1) * (n + 1 + 1) = n * (n + 1) + (n + 1) * 2" by (simp add: algebra_simps)
  then show ?thesis by simp
qed

lemma product_mono:
  fixes j n :: int
  assumes "0 \<le> j" and "j \<le> n"
  shows "j * (j + 1) \<le> n * (n + 1)"
  using assms by (intro mult_mono) simp_all

lemma below_product:
  fixes j :: int
  assumes "0 \<le> j"
  shows "j \<le> j * (j + 1)" and "0 \<le> triangle j" and "triangle j \<le> j * (j + 1)"
proof -
  from assms have "j * 1 \<le> j * (j + 1)" by (intro mult_left_mono) simp_all
  then show le: "j \<le> j * (j + 1)" by simp
  from le assms have nonneg: "0 \<le> j * (j + 1)" by simp
  then show "0 \<le> triangle j" by simp
  from nonneg show "triangle j \<le> j * (j + 1)" by simp
qed

lemma safe_values:
  fixes j n :: int
  assumes "0 \<le> j" and "j \<le> n" and "n * (n + 1) \<le> 2 ^ 53 - 1"
  shows "js_number j = j" and "js_number (triangle j) = triangle j"
    and "js_number (j * (j + 1)) = j * (j + 1)"
proof -
  from product_mono [OF assms(1,2)] assms(3) have b: "j * (j + 1) < 2 ^ 53" by simp
  from below_product [OF assms(1)] b assms(1)
  show "js_number j = j" and "js_number (triangle j) = triangle j"
    and "js_number (j * (j + 1)) = j * (j + 1)"
    by (intro js_number_safe; simp)+
qed

lemma safe_successor:
  fixes n :: int
  assumes "0 \<le> n" and "n * (n + 1) \<le> 2 ^ 53 - 1"
  shows "js_number (n + 1) = n + 1"
proof (cases "n = 0")
  case True
  then show ?thesis by (simp add: js_number_safe)
next
  case False
  with assms(1) have "1 * (n + 1) \<le> n * (n + 1)" by (intro mult_right_mono) simp_all
  then have "n + 1 \<le> n * (n + 1)" by (simp only: mult_1)
  with assms have "- (2 ^ 53) < n + 1" and "n + 1 < 2 ^ 53" by linarith+
  then show ?thesis by (rule js_number_safe)
qed

lemma sum_to_n_a_closed:
  "int k * (int k + 1) \<le> 2 ^ 53 - 1 \<Longrightarrow> sum_to_n_a (int k) = Some (triangle (int k))"
proof (induction k)
  case 0
  show ?case by (simp add: sum_to_n_a.simps)
next
  case (Suc k)
  show ?case
  proof (cases "k = 0")
    case True
    then show ?thesis by (simp add: sum_to_n_a.simps)
  next
    case False
    have le: "int k \<le> int (Suc k)" by simp
    note safe = safe_values [OF _ _ Suc.prems]
    from product_mono [OF _ le] Suc.prems have "int k * (int k + 1) \<le> 2 ^ 53 - 1" by simp
    then have IH: "sum_to_n_a (int k) = Some (triangle (int k))" by (rule Suc.IH)
    have pred: "js_number (int (Suc k) - 1) = int k"
      using safe(1) [of "int k"] by simp
    have total: "js_number (int (Suc k) + triangle (int k)) = triangle (int (Suc k))"
      using safe(2) [of "int (Suc k)"] triangle_step [of "int k"] by (simp add: add.commute)
    have "sum_to_n_a (int (Suc k))
        = do { r \<leftarrow> sum_to_n_a (js_number (int (Suc k) - 1)); Some (js_number (int (Suc k) + r)) }"
      using False by (subst sum_to_n_a.simps) simp
    also have "\<dots> = Some (triangle (int (Suc k)))"
      unfolding pred IH using total by simp
    finally show ?thesis .
  qed
qed

lemma sum_to_n_b_loop_closed:
  assumes "n * (n + 1) \<le> 2 ^ 53 - 1"
  shows "2 \<le> i \<Longrightarrow> i \<le> n + 1 \<Longrightarrow> arr (i - 1) = Some (Num (triangle (i - 1))) \<Longrightarrow>
     \<exists>arr'. sum_to_n_b_loop i n arr = Some arr' \<and> arr' n = Some (Num (triangle n))"
proof (induction "nat (n + 1 - i)" arbitrary: i arr)
  case 0
  then have "i = n + 1" by simp
  with 0 show ?case by (subst sum_to_n_b_loop.simps) simp
next
  case (Suc k)
  then have le: "i \<le> n" by simp
  note safe = safe_values [OF _ _ assms]
  let ?arr' = "arr(i \<mapsto> js_add (arr (js_number (i - 1))) i)"
  have idx: "js_number (i - 1) = i - 1"
    using Suc.prems(1) le by (intro safe(1)) simp_all
  have next_idx: "js_number (i + 1) = i + 1"
  proof (cases "i = n")
    case True
    with Suc.prems(1) show ?thesis by (simp add: safe_successor [OF _ assms])
  next
    case False
    with Suc.prems(1) le show ?thesis by (intro safe(1)) simp_all
  qed
  have cell: "?arr' i = Some (Num (triangle i))"
    using Suc.prems(3) safe(2) [of i] triangle_step [of "i - 1"] Suc.prems(1) le
    by (simp add: idx)
  have "\<exists>arr''. sum_to_n_b_loop (i + 1) n ?arr' = Some arr'' \<and> arr'' n = Some (Num (triangle n))"
  proof (rule Suc.hyps(1))
    from Suc.hyps(2) show "k = nat (n + 1 - (i + 1))" by simp
    from Suc.prems(1) show "2 \<le> i + 1" by simp
    from le show "i + 1 \<le> n + 1" by simp
    from cell show "?arr' (i + 1 - 1) = Some (Num (triangle (i + 1 - 1)))" by simp
  qed
  moreover have "sum_to_n_b_loop i n arr = sum_to_n_b_loop (i + 1) n ?arr'"
    using le by (subst sum_to_n_b_loop.simps) (simp add: idx next_idx)
  ultimately show ?case by simp
qed

lemma sum_to_n_b_closed:
  assumes "0 \<le> n" and "n * (n + 1) \<le> 2 ^ 53 - 1"
  shows "sum_to_n_b n = Some (Some (Num (triangle n)))"
proof -
  consider "n = 0" | "n = 1" | "2 \<le> n" using assms(1) by linarith
  then show ?thesis
  proof cases
    case 1
    then show ?thesis
      unfolding sum_to_n_b_def by (subst sum_to_n_b_loop.simps) simp
  next
    case 2
    then show ?thesis
      unfolding sum_to_n_b_def by (subst sum_to_n_b_loop.simps) simp
  next
    case 3
    then have "\<exists>arr'. sum_to_n_b_loop 2 n [0 \<mapsto> Num 0, 1 \<mapsto> Num 1] = Some arr'
        \<and> arr' n = Some (Num (triangle n))"
      by (intro sum_to_n_b_loop_closed [OF assms(2)]) simp_all
    then show ?thesis unfolding sum_to_n_b_def by auto
  qed
qed

lemma sum_to_n_c_closed:
  assumes "0 \<le> n" and "n * (n + 1) \<le> 2 ^ 53 - 1"
  shows "sum_to_n_c n = triangle n"
  unfolding sum_to_n_c_def
  using safe_successor [OF assms] safe_values(3) [OF assms(1) _ assms(2)] by simp

text \<open>The division by two in \<open>sum_to_n_c\<close> is exact: what it divides is even.\<close>

lemma binade_large: "2 ^ 53 \<le> m \<Longrightarrow> 0 < binade m"
  by (subst binade.simps) simp

lemma round_even_large: "2 ^ 53 \<le> m \<Longrightarrow> even (round_even m)"
  using binade_large [of m] by (simp add: round_even_def Let_def)

lemma round_even_even: "even m \<Longrightarrow> even (round_even m)"
  by (cases "m < 2 ^ 53") (simp_all add: round_even_safe round_even_large)

lemma js_number_even: "even x \<Longrightarrow> even (js_number x)"
  by (simp add: js_number_def round_even_even even_nat_iff)

lemma js_number_large:
  assumes "x \<le> - (2 ^ 53) \<or> 2 ^ 53 \<le> x"
  shows "even (js_number x)"
proof (cases "x < 0")
  case True
  with assms have "2 ^ 53 \<le> nat (- x)" by (simp add: le_nat_iff)
  with True show ?thesis by (simp add: js_number_def round_even_large)
next
  case False
  with assms have "2 ^ 53 \<le> nat x" by (simp add: le_nat_iff)
  with False show ?thesis by (simp add: js_number_def round_even_large)
qed

lemma sum_to_n_c_even: "even (js_number (n * js_number (n + 1)))"
proof (cases "- (2 ^ 53) < n + 1 \<and> n + 1 < 2 ^ 53")
  case True
  then have "js_number (n + 1) = n + 1" by (simp add: js_number_safe)
  then show ?thesis by (simp add: js_number_even)
next
  case False
  then have "even (js_number (n + 1))" by (intro js_number_large) auto
  then show ?thesis by (simp add: js_number_even)
qed

text \<open>
  Beyond the safe integers the closed form is rounded: at \<open>n = 134217729\<close> the product
  \<open>n * (n + 1)\<close> lies between \<open>2 ^ 54\<close> and \<open>2 ^ 55\<close>, where doubles are four apart,
  and \<open>sum_to_n_c\<close> returns one less than \<open>n * (n + 1) / 2\<close>.
\<close>

lemma sum_to_n_c_rounded:
  "sum_to_n_c 134217729 = 9007199456067584"
  "triangle 134217729 = 9007199456067585"
  by (simp_all add: sum_to_n_c_def js_number_def round_even_def binade.simps Let_def)

text \<open>
  Claim C8.  For every nonnegative integer \<open>n\<close> of the safely representable range, that
  is with every value computed, up to \<open>n * (n + 1)\<close>, at most \<open>2 ^ 53 - 1\<close>
  (\<open>Number.MAX_SAFE_INTEGER\<close>), the recursive \<open>sum_to_n_a\<close>, the array-filling
  \<open>sum_to_n_b\<close> and the closed form \<open>sum_to_n_c\<close> all return, and return the same number,
  which is \<open>n * (n + 1) / 2\<close>.
\<close>

theorem sum_to_n_agree:
  assumes "0 \<le> n" and "n * (n + 1) \<le> 2 ^ 53 - 1"
  shows "sum_to_n_a n = Some (n * (n + 1) div 2)
       \<and> sum_to_n_b n = Some (Some (Num (n * (n + 1) div 2)))
       \<and> sum_to_n_c n = n * (n + 1) div 2"
proof (intro conjI)
  from assms(1) obtain k where "n = int k" using nonneg_int_cases by blast
  with assms(2) show "sum_to_n_a n = Some (n * (n + 1) div 2)"
    by (simp add: sum_to_n_a_closed)
  show "sum_to_n_b n = Some (Some (Num (n * (n + 1) div 2)))"
    using assms by (rule sum_to_n_b_closed)
  show "sum_to_n_c n = n * (n + 1) div 2"
    using assms by (rule sum_to_n_c_closed)
qed

theorem sum_to_n_agree_witness:
  "(0::int) \<le> 10 \<and> (10::int) * (10 + 1) \<le> 2 ^ 53 - 1
 \<and> sum_to_n_a 10 = Some 55 \<and> sum_to_n_b 10 = Some (Some (Num 55)) \<and> sum_to_n_c 10 = 55
 \<and> (0::int) \<le> 94906265 \<and> (94906265::int) * (94906265 + 1) \<le> 2 ^ 53 - 1
 \<and> sum_to_n_a 94906265 = Some 4503599615578245
 \<and> sum_to_n_b 94906265 = Some (Some (Num 4503599615578245))
 \<and> sum_to_n_c 94906265 = 4503599615578245"
proof -
  have small: "(0::int) \<le> 10" "(10::int) * (10 + 1) \<le> 2 ^ 53 - 1" by simp_all
  have large: "(0::int) \<le> 94906265" "(94906265::int) * (94906265 + 1) \<le> 2 ^ 53 - 1"
    by simp_all
  from sum_to_n_agree [OF small] sum_to_n_agree [OF large] show ?thesis by simp
qed


section \<open>Problem 6: the score board design (README.md)\<close>

subsection \<open>The Redis store\<close>

text \<open>
  Redis holds the action locks and the rate-limit counters.  An entry is a value with an
  optional expiry time; the clock is the number of seconds passed to each operation.  The
  values written by the design are the lock marker \<open>'1'\<close> and the decimal counters that
  \<open>INCR\<close> and \<open>parseInt\<close> read as integers, so a value is an \<open>int\<close>.
\<close>

type_synonym redis = "string \<rightharpoonup> (int \<times> nat option)"

definition redis_get :: "redis \<Rightarrow> nat \<Rightarrow> string \<Rightarrow> int option" where
  "redis_get r now k =
     (case r k of
        None \<Rightarrow> None
      | Some (v, None) \<Rightarrow> Some v
      | Some (v, Some t) \<Rightarrow> if t \<le> now then None else Some v)"

definition redis_set_ex_nx :: "redis \<Rightarrow> nat \<Rightarrow> string \<Rightarrow> int \<Rightarrow> nat \<Rightarrow> bool \<times> redis" where
  "redis_set_ex_nx r now k v ttl =
     (case redis_get r now k of
        Some _ \<Rightarrow> (False, r)
      | None \<Rightarrow> (True, r(k \<mapsto> (v, Some (now + ttl)))))"

definition redis_del :: "redis \<Rightarrow> string \<Rightarrow> redis" where
  "redis_del r k = r(k := None)"

text \<open>\<open>INCR\<close> keeps the expiry of a live key and creates a missing one without expiry.\<close>

definition redis_incr :: "redis \<Rightarrow> nat \<Rightarrow> string \<Rightarrow> redis" where
  "redis_incr r now k =
     (case redis_get r now k of
        None \<Rightarrow> r(k \<mapsto> (1, None))
      | Some v \<Rightarrow> r(k \<mapsto> (v + 1, case r k of None \<Rightarrow> None | Some (old, expiry) \<Rightarrow> expiry)))"

definition redis_expire :: "redis \<Rightarrow> nat \<Rightarrow> string \<Rightarrow> nat \<Rightarrow> redis" where
  "redis_expire r now k secs =
     (case redis_get r now k of
        None \<Rightarrow> r
      | Some v \<Rightarrow> r(k \<mapsto> (v, Some (now + secs))))"

subsection \<open>RedisActionLockService\<close>

definition lockKey :: "string \<Rightarrow> string \<Rightarrow> string" where
  "lockKey userId actionId = ''action_lock:'' @ userId @ '':'' @ actionId"

definition acquireLock :: "redis \<Rightarrow> nat \<Rightarrow> string \<Rightarrow> string \<Rightarrow> nat \<Rightarrow> bool \<times> redis" where
  "acquireLock r now userId actionId ttl = redis_set_ex_nx r now (lockKey userId actionId) 1 ttl"

definition releaseLock :: "redis \<Rightarrow> string \<Rightarrow> string \<Rightarrow> redis" where
  "releaseLock r userId actionId = redis_del r (lockKey userId actionId)"

subsection \<open>The tables \<open>actions\<close> and \<open>scores\<close>\<close>

record action =
  action_id :: string
  user_id :: string
  action_type :: string
  score_value :: int
  action_timestamp :: nat

text \<open>
  A row of \<open>actions\<close> has the columns that the handler's \<open>INSERT\<close> names (above).  Of
  \<open>scores\<close> the model keeps the columns that the \<open>UPDATE\<close> touches.  The data model has
  one aggregate per principal, so the table is a map from \<open>user_id\<close> to the row; a
  principal may have no row.
\<close>

record score =
  current_score :: int
  total_actions :: int
  last_action_at :: "nat option"

record db =
  actions :: "action list"
  scores :: "string \<rightharpoonup> score"

text \<open>
  The two uniqueness rules of the design's DDL: the index per principal and, as the
  README's alternative to it, the constraint on \<open>action_id\<close> alone.  Which of them are
  installed, and the order in which the store checks them, is the parameter \<open>schema\<close>
  of the statements below.  \<open>readme_schema\<close> is the block run as it is written, the index
  before the constraint.
\<close>

datatype constraint = idx_actions_unique_per_user | unique_action_id

fun constraint_name :: "constraint \<Rightarrow> string" where
  "constraint_name idx_actions_unique_per_user = ''idx_actions_unique_per_user''"
| "constraint_name unique_action_id = ''unique_action_id''"

fun violates :: "action list \<Rightarrow> action \<Rightarrow> constraint \<Rightarrow> bool" where
  "violates rows a idx_actions_unique_per_user =
     list_ex (\<lambda>b. action_id b = action_id a \<and> user_id b = user_id a) rows"
| "violates rows a unique_action_id =
     list_ex (\<lambda>b. action_id b = action_id a) rows"

definition readme_schema :: "constraint list" where
  "readme_schema = [idx_actions_unique_per_user, unique_action_id]"

datatype error =
    UniqueViolation string
  | NumericOutOfRange
  | TypeError

text \<open>The columns \<open>score_value\<close>, \<open>current_score\<close> and \<open>total_actions\<close> are \<open>INT\<close>:
  a value outside the 32-bit range makes the statement fail.\<close>

definition int4 :: "int \<Rightarrow> bool" where
  "int4 v \<longleftrightarrow> - 2147483648 \<le> v \<and> v \<le> 2147483647"

definition select_existing :: "db \<Rightarrow> string \<Rightarrow> string \<Rightarrow> action list" where
  "select_existing d actionId userId =
     filter (\<lambda>b. action_id b = actionId \<and> user_id b = userId) (actions d)"

definition insert_action :: "constraint list \<Rightarrow> db \<Rightarrow> action \<Rightarrow> error + db" where
  "insert_action schema d a =
     (if \<not> int4 (score_value a) then Inl NumericOutOfRange
      else case find (violates (actions d) a) schema of
        Some c \<Rightarrow> Inl (UniqueViolation (constraint_name c))
      | None \<Rightarrow> Inr (d\<lparr>actions := actions d @ [a]\<rparr>))"

text \<open>\<open>UPDATE scores SET ... WHERE user_id = $3 RETURNING current_score, total_actions\<close>:
  the new database and the returned rows (none when the principal has no row).\<close>

definition updated_row :: "score \<Rightarrow> int \<Rightarrow> nat \<Rightarrow> score" where
  "updated_row row inc now =
     \<lparr>current_score = current_score row + inc,
      total_actions = total_actions row + 1,
      last_action_at = Some now\<rparr>"

definition update_score :: "db \<Rightarrow> string \<Rightarrow> int \<Rightarrow> nat \<Rightarrow> error + (db \<times> score list)" where
  "update_score d uid inc now =
     (case scores d uid of
        None \<Rightarrow> Inr (d, [])
      | Some row \<Rightarrow>
          if int4 (current_score row + inc) \<and> int4 (total_actions row + 1)
          then Inr (d\<lparr>scores := (scores d)(uid \<mapsto> updated_row row inc now)\<rparr>,
                    [updated_row row inc now])
          else Inl NumericOutOfRange)"

subsection \<open>\<open>POST /api/v1/scores/update\<close>\<close>

record request =
  userId :: string
  actionId :: string
  actionType :: string
  scoreIncrement :: int

datatype body =
    ErrorBody string
  | SuccessBody int int bool

datatype outcome =
    Respond nat body
  | Throw error

record state =
  redis :: redis
  db :: db

text \<open>
  Step 3 of the handler, from \<open>BEGIN\<close> to \<open>COMMIT\<close>.  The statements run on a copy of the
  database that \<open>COMMIT\<close> installs; when a statement fails the copy is dropped, which is
  the \<open>ROLLBACK\<close> of the handler's \<open>catch\<close>.  A statement fails on a violated
  constraint or a value out of range; a lost connection is not part of the model.  The
  clock \<open>now\<close> stands for \<open>new Date()\<close>.
\<close>

definition inserted_row :: "nat \<Rightarrow> request \<Rightarrow> action" where
  "inserted_row now req =
     \<lparr>action_id = actionId req, user_id = userId req, action_type = actionType req,
      score_value = scoreIncrement req, action_timestamp = now\<rparr>"

definition transaction :: "constraint list \<Rightarrow> nat \<Rightarrow> db \<Rightarrow> request \<Rightarrow> error + (db \<times> score list)" where
  "transaction schema now d req =
     (case insert_action schema d (inserted_row now req) of
        Inl e \<Rightarrow> Inl e
      | Inr d1 \<Rightarrow> update_score d1 (userId req) (scoreIncrement req) now)"

text \<open>
  The \<open>try\<close> block with its \<open>catch\<close>: the existence check of step 2, then the
  transaction and the response (\<open>commit_step\<close>).  The success response reads
  \<open>result.rows[0]\<close> after \<open>COMMIT\<close>; with no returned row that read throws a
  \<open>TypeError\<close>, the \<open>ROLLBACK\<close> of the \<open>catch\<close> finds no open transaction, and the
  error is thrown on.
\<close>

definition duplicate_action :: outcome where
  "duplicate_action = Respond 409 (ErrorBody ''DUPLICATE_ACTION'')"

definition concurrent_request :: outcome where
  "concurrent_request = Respond 409 (ErrorBody ''CONCURRENT_REQUEST'')"

definition commit_step :: "constraint list \<Rightarrow> nat \<Rightarrow> db \<Rightarrow> request \<Rightarrow> outcome \<times> db" where
  "commit_step schema now d req =
     (case transaction schema now d req of
        Inl e \<Rightarrow>
          (if e = UniqueViolation ''unique_action_id'' then duplicate_action else Throw e, d)
      | Inr (d2, rows) \<Rightarrow>
          (case rows of
             [] \<Rightarrow> (Throw TypeError, d2)
           | row # _ \<Rightarrow>
               (Respond 200 (SuccessBody (current_score row) (scoreIncrement req) True), d2)))"

definition update_try :: "constraint list \<Rightarrow> nat \<Rightarrow> db \<Rightarrow> request \<Rightarrow> outcome \<times> db" where
  "update_try schema now d req =
     (if select_existing d (actionId req) (userId req) \<noteq> [] then (duplicate_action, d)
      else commit_step schema now d req)"

definition post_scores_update :: "constraint list \<Rightarrow> nat \<Rightarrow> state \<Rightarrow> request \<Rightarrow> outcome \<times> state" where
  "post_scores_update schema now s req =
     (case acquireLock (redis s) now (userId req) (actionId req) 30 of
        (False, r1) \<Rightarrow> (concurrent_request, s\<lparr>redis := r1\<rparr>)
      | (True, r1) \<Rightarrow>
          (case update_try schema now (db s) req of
             (out, d') \<Rightarrow>
               (out, \<lparr>redis = releaseLock r1 (userId req) (actionId req), db = d'\<rparr>)))"

text \<open>A run of submissions handled one after the other, each at its own time.\<close>

fun run_updates :: "constraint list \<Rightarrow> state \<Rightarrow> (nat \<times> request) list \<Rightarrow> state" where
  "run_updates schema s [] = s"
| "run_updates schema s ((now, req) # rest) =
     run_updates schema (snd (post_scores_update schema now s req)) rest"

definition ledger_sum :: "action list \<Rightarrow> string \<Rightarrow> int" where
  "ledger_sum rows p = sum_list (map score_value (filter (\<lambda>a. user_id a = p) rows))"

definition ledger_inv :: "db \<Rightarrow> bool" where
  "ledger_inv d \<longleftrightarrow> (\<forall>p row. scores d p = Some row \<longrightarrow> current_score row = ledger_sum (actions d) p)"

text \<open>
  The state of the scenario: principal \<open>A\<close> holds score 100, earned by one earlier action,
  and submits action \<open>a1\<close> worth 50.
\<close>

definition scenario_state :: state where
  "scenario_state =
     \<lparr>redis = Map.empty,
      db = \<lparr>actions = [\<lparr>action_id = ''a0'', user_id = ''A'', action_type = ''task_completion'',
                           score_value = 100, action_timestamp = 0\<rparr>],
            scores = [''A'' \<mapsto> \<lparr>current_score = 100, total_actions = 1, last_action_at = Some 0\<rparr>]\<rparr>\<rparr>"

definition scenario_request :: request where
  "scenario_request =
     \<lparr>userId = ''A'', actionId = ''a1'', actionType = ''task_completion'', scoreIncrement = 50\<rparr>"

text \<open>Principal \<open>B\<close> replays the \<open>action_id\<close> that principal \<open>A\<close> has committed.\<close>

definition replay_request :: request where
  "replay_request =
     \<lparr>userId = ''B'', actionId = ''a0'', actionType = ''task_completion'', scoreIncrement = 50\<rparr>"

text \<open>The scenario with a score row for principal \<open>B\<close> as well.\<close>

definition two_principals :: state where
  "two_principals =
     scenario_state\<lparr>db := (db scenario_state)\<lparr>scores := (scores (db scenario_state))
        (''B'' \<mapsto> \<lparr>current_score = 0, total_actions = 0, last_action_at = None\<rparr>)\<rparr>\<rparr>"

subsection \<open>Submissions in flight\<close>

text \<open>
  The handler awaits four calls in turn: the lock (\<open>SET ... NX\<close>), the existence check,
  the transaction, and the release of the lock in \<open>finally\<close>.  Between two of them other
  submissions may run.  Each call is one atomic step on the shared state; the transaction
  is atomic because the store runs it under its uniqueness constraint and row lock.  The
  position of a submission in the handler:
\<close>

datatype pc =
    Start
  | Locked
  | Checked
  | Finishing outcome
  | Done outcome

fun proc_step :: "constraint list \<Rightarrow> request \<Rightarrow> nat \<Rightarrow> state \<Rightarrow> pc \<Rightarrow> (state \<times> pc) option" where
  "proc_step schema req now s Start =
     (case acquireLock (redis s) now (userId req) (actionId req) 30 of
        (False, r1) \<Rightarrow> Some (s\<lparr>redis := r1\<rparr>, Done concurrent_request)
      | (True, r1) \<Rightarrow> Some (s\<lparr>redis := r1\<rparr>, Locked))"
| "proc_step schema req now s Locked =
     Some (s, if select_existing (db s) (actionId req) (userId req) \<noteq> []
              then Finishing duplicate_action else Checked)"
| "proc_step schema req now s Checked =
     (case commit_step schema now (db s) req of
        (out, d') \<Rightarrow> Some (s\<lparr>db := d'\<rparr>, Finishing out))"
| "proc_step schema req now s (Finishing out) =
     Some (s\<lparr>redis := releaseLock (redis s) (userId req) (actionId req)\<rparr>, Done out)"
| "proc_step schema req now s (Done out) = None"

text \<open>One submission running alone, its steps one after the other at one time.\<close>

fun complete :: "nat \<Rightarrow> constraint list \<Rightarrow> request \<Rightarrow> nat \<Rightarrow> state \<Rightarrow> pc \<Rightarrow> (outcome \<times> state) option" where
  "complete fuel schema req now s (Done out) = Some (out, s)"
| "complete 0 schema req now s p = None"
| "complete (Suc fuel) schema req now s p =
     (case proc_step schema req now s p of
        None \<Rightarrow> None
      | Some (s', p') \<Rightarrow> complete fuel schema req now s' p')"

text \<open>
  Any number of submissions, each with its own request, started in state \<open>s0\<close> and
  interleaved in any order, each step at any time: a lock may expire while its holder is
  still at work.
\<close>

inductive interleaved :: "constraint list \<Rightarrow> state \<Rightarrow> request list \<Rightarrow> state \<Rightarrow> pc list \<Rightarrow> bool"
  for schema :: "constraint list" and s0 :: state and reqs :: "request list"
where
  init: "interleaved schema s0 reqs s0 (replicate (length reqs) Start)"
| advance: "interleaved schema s0 reqs s ps \<Longrightarrow> i < length ps \<Longrightarrow>
         proc_step schema (reqs ! i) now s (ps ! i) = Some (s', p') \<Longrightarrow>
         interleaved schema s0 reqs s' (ps[i := p'])"

text \<open>
  One interleaving, given as its schedule: which submission takes its next step, and
  when.  The result is the final state with the positions of the submissions.
\<close>

fun run_schedule :: "constraint list \<Rightarrow> request list \<Rightarrow> (nat \<times> nat) list \<Rightarrow> state \<Rightarrow> pc list
    \<Rightarrow> (state \<times> pc list) option" where
  "run_schedule schema reqs [] s ps = Some (s, ps)"
| "run_schedule schema reqs ((i, now) # rest) s ps =
     (if i < length ps
      then case proc_step schema (reqs ! i) now s (ps ! i) of
             None \<Rightarrow> None
           | Some (s', p') \<Rightarrow> run_schedule schema reqs rest s' (ps[i := p'])
      else None)"

text \<open>
  Two submissions, the first of which holds the lock for longer than its 30 seconds: it
  takes the lock and passes the check at second 5; the second takes the expired lock and
  passes the check at second 40; both reach the transaction at second 41, the first
  ahead of the second.
\<close>

definition lost_lock :: "(nat \<times> nat) list" where
  "lost_lock = [(0, 5), (0, 5), (1, 40), (1, 40), (0, 41), (1, 41), (1, 41), (0, 41)]"

text \<open>What a finished run shows: the answers, and the score of a principal.\<close>

definition final_outcomes :: "(state \<times> pc list) option \<Rightarrow> pc list option" where
  "final_outcomes res = map_option snd res"

definition final_score :: "string \<Rightarrow> (state \<times> pc list) option \<Rightarrow> int option" where
  "final_score p res =
     (case res of
        None \<Rightarrow> None
      | Some (s, ps) \<Rightarrow> map_option current_score (scores (db s) p))"

subsection \<open>The middleware \<open>actionRateLimit\<close>\<close>

record rate_limit =
  limit_window :: nat
  limit_max :: int

definition actionRateLimits :: "string \<rightharpoonup> rate_limit" where
  "actionRateLimits =
     [''task_completion'' \<mapsto> \<lparr>limit_window = 60000, limit_max = 5\<rparr>,
      ''achievement_unlock'' \<mapsto> \<lparr>limit_window = 300000, limit_max = 2\<rparr>,
      ''bonus_action'' \<mapsto> \<lparr>limit_window = 3600000, limit_max = 10\<rparr>]"

definition rateKey :: "request \<Rightarrow> string" where
  "rateKey req = ''rate_limit:'' @ actionType req @ '':'' @ userId req"

datatype middleware_result =
    Next
  | Reply nat body

definition rate_limited :: middleware_result where
  "rate_limited = Reply 429 (ErrorBody ''ACTION_RATE_LIMIT'')"

text \<open>
  \<open>current && parseInt(current) >= limits.max\<close>: a missing counter passes, a present one
  is compared with the maximum.  The counter's lifetime is \<open>Math.ceil(limits.window / 1000)\<close>
  seconds from the last accepted submission.  The table \<open>actionRateLimits\<close> is read by
  its own three keys.
\<close>

definition window_full :: "redis \<Rightarrow> nat \<Rightarrow> string \<Rightarrow> rate_limit \<Rightarrow> bool" where
  "window_full r now key limits =
     (case redis_get r now key of None \<Rightarrow> False | Some current \<Rightarrow> limit_max limits \<le> current)"

definition actionRateLimit :: "redis \<Rightarrow> nat \<Rightarrow> request \<Rightarrow> middleware_result \<times> redis" where
  "actionRateLimit r now req =
     (case actionRateLimits (actionType req) of
        None \<Rightarrow> (Reply 400 (ErrorBody ''INVALID_ACTION_TYPE''), r)
      | Some limits \<Rightarrow>
          if window_full r now (rateKey req) limits then (rate_limited, r)
          else (Next, redis_expire (redis_incr r now (rateKey req)) now (rateKey req)
                        ((limit_window limits + 999) div 1000)))"

text \<open>A run of submissions through the middleware, each at its own time.\<close>

fun run_rate_limit :: "redis \<Rightarrow> (nat \<times> request) list \<Rightarrow> middleware_result list \<times> redis" where
  "run_rate_limit r [] = ([], r)"
| "run_rate_limit r ((now, req) # rest) =
     (case actionRateLimit r now req of
        (res, r') \<Rightarrow> (case run_rate_limit r' rest of (ress, r'') \<Rightarrow> (res # ress, r'')))"

text \<open>The counter of principal \<open>A\<close> after five accepted task completions, the last
  of them at second 5.\<close>

definition full_window :: redis where
  "full_window = [rateKey scenario_request \<mapsto> (5, Some 65)]"

text \<open>A submission of principal \<open>A\<close> with an increment above the documented maximum of
  1000 points.\<close>

definition over_limit_request :: request where
  "over_limit_request =
     \<lparr>userId = ''A'', actionId = ''a1'', actionType = ''task_completion'', scoreIncrement = 5000\<rparr>"

subsection \<open>The handler keeps the ledger and the scores in step\<close>


lemma transaction_committed:
  assumes "transaction schema now d req = Inr (d2, rows)"
  shows "actions d2 = actions d @ [inserted_row now req]"
    and "find (violates (actions d) (inserted_row now req)) schema = None"
    and "scores d (userId req) = None \<Longrightarrow> scores d2 = scores d \<and> rows = []"
    and "scores d (userId req) = Some row \<Longrightarrow>
           scores d2 = (scores d)(userId req \<mapsto> updated_row row (scoreIncrement req) now)
         \<and> rows = [updated_row row (scoreIncrement req) now]"
  using assms
  by (auto simp: transaction_def insert_action_def update_score_def
           split: sum.splits if_splits option.splits)

lemma update_try_cases:
  assumes "update_try schema now d req = (out, d')"
  obtains (unchanged) "d' = d" "\<forall>n i f. out \<noteq> Respond 200 (SuccessBody n i f)"
  | (committed) rows where "transaction schema now d req = Inr (d', rows)"
      "select_existing d (actionId req) (userId req) = []"
      "out = (case rows of [] \<Rightarrow> Throw TypeError
              | row # _ \<Rightarrow> Respond 200 (SuccessBody (current_score row) (scoreIncrement req) True))"
  using assms
  by (auto simp: update_try_def commit_step_def duplicate_action_def
        split: if_splits sum.splits prod.splits list.splits)


lemma ledger_sum_append:
  "ledger_sum (rows @ [a]) p = ledger_sum rows p + (if user_id a = p then score_value a else 0)"
  by (simp add: ledger_sum_def)

lemma transaction_ledger_inv:
  assumes inv: "ledger_inv d" and tx: "transaction schema now d req = Inr (d2, rows)"
  shows "ledger_inv d2"
  unfolding ledger_inv_def
proof (intro allI impI)
  fix p row
  assume row: "scores d2 p = Some row"
  note acts = transaction_committed(1) [OF tx]
  show "current_score row = ledger_sum (actions d2) p"
  proof (cases "scores d (userId req)")
    case None
    with transaction_committed(3) [OF tx] have same: "scores d2 = scores d" by simp
    with row None have "p \<noteq> userId req" by auto
    moreover from row same inv have "current_score row = ledger_sum (actions d) p"
      by (simp add: ledger_inv_def)
    ultimately show ?thesis
      by (simp add: acts ledger_sum_append inserted_row_def)
  next
    case (Some old)
    from transaction_committed(4) [OF tx Some]
    have upd: "scores d2 = (scores d)(userId req \<mapsto> updated_row old (scoreIncrement req) now)"
      by simp
    show ?thesis
    proof (cases "p = userId req")
      case True
      with row upd have "row = updated_row old (scoreIncrement req) now" by simp
      moreover from inv Some have "current_score old = ledger_sum (actions d) (userId req)"
        by (simp add: ledger_inv_def)
      ultimately show ?thesis
        using True by (simp add: acts ledger_sum_append inserted_row_def updated_row_def)
    next
      case False
      with row upd have "scores d p = Some row" by simp
      with inv have "current_score row = ledger_sum (actions d) p"
        by (simp add: ledger_inv_def)
      with False show ?thesis
        by (simp add: acts ledger_sum_append inserted_row_def)
    qed
  qed
qed

lemma update_try_ledger_inv:
  assumes "ledger_inv d" and "update_try schema now d req = (out, d')"
  shows "ledger_inv d'"
  using assms(2)
proof (cases rule: update_try_cases)
  case unchanged
  with assms(1) show ?thesis by simp
next
  case (committed rows)
  with assms(1) show ?thesis by (blast intro: transaction_ledger_inv)
qed

lemma post_scores_update_db:
  "db (snd (post_scores_update schema now s req)) = db s
 \<or> db (snd (post_scores_update schema now s req)) = snd (update_try schema now (db s) req)"
  by (simp add: post_scores_update_def split: prod.splits bool.splits)

lemma post_scores_update_ledger_inv:
  assumes "ledger_inv (db s)"
  shows "ledger_inv (db (snd (post_scores_update schema now s req)))"
proof -
  obtain out d' where ut: "update_try schema now (db s) req = (out, d')"
    by (cases "update_try schema now (db s) req")
  with assms have "ledger_inv d'" by (rule update_try_ledger_inv)
  with assms ut post_scores_update_db [of schema now s req] show ?thesis by auto
qed

lemma run_updates_ledger_inv:
  "ledger_inv (db s) \<Longrightarrow> ledger_inv (db (run_updates schema s subs))"
proof (induction subs arbitrary: s)
  case Nil
  then show ?case by simp
next
  case (Cons sub subs)
  obtain now req where sub: "sub = (now, req)" by (cases sub)
  from Cons.prems have "ledger_inv (db (snd (post_scores_update schema now s req)))"
    by (rule post_scores_update_ledger_inv)
  then show ?case unfolding sub by (simp add: Cons.IH)
qed

lemma post_scores_update_success:
  assumes "post_scores_update schema now s req = (Respond 200 (SuccessBody newScore inc flag), s')"
  obtains row where
    "redis_get (redis s) now (lockKey (userId req) (actionId req)) = None"
    "redis s' = (redis s)(lockKey (userId req) (actionId req) := None)"
    "select_existing (db s) (actionId req) (userId req) = []"
    "find (violates (actions (db s)) (inserted_row now req)) schema = None"
    "scores (db s) (userId req) = Some row"
    "actions (db s') = actions (db s) @ [inserted_row now req]"
    "scores (db s') = (scores (db s))(userId req \<mapsto> updated_row row (scoreIncrement req) now)"
    "newScore = current_score row + scoreIncrement req"
    "inc = scoreIncrement req"
proof -
  from assms obtain r1 where
    lock: "acquireLock (redis s) now (userId req) (actionId req) 30 = (True, r1)"
    and ut: "update_try schema now (db s) req = (Respond 200 (SuccessBody newScore inc flag), db s')"
    and red: "redis s' = releaseLock r1 (userId req) (actionId req)"
    by (auto simp: post_scores_update_def concurrent_request_def split: prod.splits bool.splits)
  from lock have free: "redis_get (redis s) now (lockKey (userId req) (actionId req)) = None"
    and r1: "r1 = (redis s)(lockKey (userId req) (actionId req) \<mapsto> (1, Some (now + 30)))"
    by (auto simp: acquireLock_def redis_set_ex_nx_def split: option.splits)
  from ut show ?thesis
  proof (cases rule: update_try_cases)
    case unchanged
    then show ?thesis by blast
  next
    case (committed rows)
    note tx = committed(1)
    from committed(3) obtain row' rest where rows: "rows = row' # rest"
      and out: "newScore = current_score row'" "inc = scoreIncrement req"
      by (cases rows) auto
    from rows transaction_committed(3) [OF tx] obtain row
      where row: "scores (db s) (userId req) = Some row"
      by (cases "scores (db s) (userId req)") auto
    from transaction_committed(4) [OF tx row] rows
    have "row' = updated_row row (scoreIncrement req) now" by simp
    with out have "newScore = current_score row + scoreIncrement req"
      by (simp add: updated_row_def)
    with that [OF free _ committed(2) transaction_committed(2) [OF tx] row
          transaction_committed(1) [OF tx]] transaction_committed(4) [OF tx row] out red r1
    show ?thesis by (simp add: releaseLock_def redis_del_def)
  qed
qed



text \<open>
  The store changes only in the transaction, so the invariant holds at every moment of every
  interleaving, not only between submissions.
\<close>

lemma commit_step_cases:
  assumes "commit_step schema now d req = (out, d')"
  obtains (unchanged) "d' = d"
  | (committed) rows where "transaction schema now d req = Inr (d', rows)"
  using assms
  by (auto simp: commit_step_def split: sum.splits prod.splits list.splits)

lemma commit_step_ledger_inv:
  assumes "ledger_inv d"
  shows "ledger_inv (snd (commit_step schema now d req))"
proof -
  obtain out d' where cs: "commit_step schema now d req = (out, d')"
    by (cases "commit_step schema now d req")
  then have "ledger_inv d'"
  proof (cases rule: commit_step_cases)
    case unchanged
    with assms show ?thesis by simp
  next
    case (committed rows)
    with assms show ?thesis by (blast intro: transaction_ledger_inv)
  qed
  with cs show ?thesis by simp
qed

lemma proc_step_ledger_inv:
  assumes "ledger_inv (db s)" and "proc_step schema req now s p = Some (s', p')"
  shows "ledger_inv (db s')"
proof (cases p)
  case Checked
  with assms(2) have "db s' = snd (commit_step schema now (db s) req)"
    by (auto split: prod.splits)
  with commit_step_ledger_inv [OF assms(1)] show ?thesis by simp
qed (use assms in \<open>auto split: prod.splits bool.splits\<close>)

lemma interleaved_ledger_inv:
  assumes "ledger_inv (db s0)" and "interleaved schema s0 reqs s ps"
  shows "ledger_inv (db s)"
  using assms(2,1)
proof (induction rule: interleaved.induct)
  case init
  then show ?case .
next
  case (advance s ps i now s' p')
  then show ?case by (blast intro: proc_step_ledger_inv)
qed

lemma scenario_inv: "ledger_inv (db scenario_state)"
  by (auto simp: ledger_inv_def scenario_state_def ledger_sum_def split: if_splits)

lemma scenario_first:
  "fst (post_scores_update readme_schema 5 scenario_state scenario_request)
     = Respond 200 (SuccessBody 150 50 True)"
  by code_simp

text \<open>
  The invariant speaks of the principals that have a score row.  For a principal without
  one the \<open>UPDATE\<close> matches nothing: the action row is committed all the same, and the
  handler throws when it reads the first returned row.
\<close>

lemma commit_without_score_row:
  assumes "scores d (userId req) = None" and "transaction schema now d req = Inr (d2, rows)"
  shows "commit_step schema now d req = (Throw TypeError, d2)"
    and "actions d2 = actions d @ [inserted_row now req]"
    and "scores d2 = scores d"
  using assms transaction_committed(1,3) [OF assms(2)] by (simp_all add: commit_step_def)

text \<open>
  Claim C1.  If every score row equals the sum of the values of its principal's committed
  actions, it still does after any run of completed submissions, whatever their outcomes,
  and in every state that submissions running side by side can reach.
  A submission that reports success has appended exactly one action row, carrying the
  request's increment for the request's principal, and has added exactly that increment
  to the principal's \<open>current_score\<close>, in the same transaction.
\<close>

theorem score_matches_ledger:
  assumes "ledger_inv (db s)"
  shows "ledger_inv (db (run_updates schema s subs))
       \<and> (\<forall>reqs s' ps. interleaved schema s reqs s' ps \<longrightarrow> ledger_inv (db s'))
       \<and> (\<forall>now req newScore inc flag s'.
            post_scores_update schema now s req = (Respond 200 (SuccessBody newScore inc flag), s') \<longrightarrow>
              actions (db s') = actions (db s) @ [inserted_row now req]
            \<and> score_value (inserted_row now req) = scoreIncrement req
            \<and> user_id (inserted_row now req) = userId req
            \<and> (\<exists>row. scores (db s) (userId req) = Some row
                   \<and> scores (db s') =
                       (scores (db s))(userId req \<mapsto> updated_row row (scoreIncrement req) now)
                   \<and> current_score (updated_row row (scoreIncrement req) now)
                       = current_score row + scoreIncrement req
                   \<and> newScore = current_score row + scoreIncrement req)
            \<and> ledger_inv (db s'))"
proof (intro conjI allI impI)
  show "ledger_inv (db (run_updates schema s subs))"
    using assms by (rule run_updates_ledger_inv)
next
  fix reqs s' ps
  assume "interleaved schema s reqs s' ps"
  with assms show "ledger_inv (db s')" by (rule interleaved_ledger_inv)
next
  fix now req newScore inc flag s'
  assume ok: "post_scores_update schema now s req = (Respond 200 (SuccessBody newScore inc flag), s')"
  from ok show "actions (db s') = actions (db s) @ [inserted_row now req]"
    by (rule post_scores_update_success)
  show "score_value (inserted_row now req) = scoreIncrement req"
    and "user_id (inserted_row now req) = userId req"
    by (simp_all add: inserted_row_def)
  from ok show "\<exists>row. scores (db s) (userId req) = Some row
      \<and> scores (db s') = (scores (db s))(userId req \<mapsto> updated_row row (scoreIncrement req) now)
      \<and> current_score (updated_row row (scoreIncrement req) now)
           = current_score row + scoreIncrement req
      \<and> newScore = current_score row + scoreIncrement req"
    by (rule post_scores_update_success) (simp add: updated_row_def)
  from post_scores_update_ledger_inv [OF assms, of schema now req] ok
  show "ledger_inv (db s')" by simp
qed

theorem score_matches_ledger_witness:
  "ledger_inv (db scenario_state)
 \<and> ledger_inv (db (run_updates readme_schema scenario_state [(5, scenario_request)]))
 \<and> fst (post_scores_update readme_schema 5 scenario_state scenario_request)
      = Respond 200 (SuccessBody 150 50 True)
 \<and> actions (db (snd (post_scores_update readme_schema 5 scenario_state scenario_request)))
      = actions (db scenario_state) @ [inserted_row 5 scenario_request]
 \<and> ledger_inv (db (snd (post_scores_update readme_schema 5 scenario_state scenario_request)))"
proof -
  let ?res = "post_scores_update readme_schema 5 scenario_state scenario_request"
  note inst = score_matches_ledger [OF scenario_inv, of readme_schema "[(5, scenario_request)]"]
  have run: "?res = (Respond 200 (SuccessBody 150 50 True), snd ?res)"
    using scenario_first by (simp add: prod_eq_iff)
  from inst have "ledger_inv (db (run_updates readme_schema scenario_state [(5, scenario_request)]))"
    by (rule conjunct1)
  moreover from inst run
  have "actions (db (snd ?res)) = actions (db scenario_state) @ [inserted_row 5 scenario_request]
      \<and> ledger_inv (db (snd ?res))"
    by blast
  ultimately show ?thesis using scenario_inv scenario_first by simp
qed



subsection \<open>Resubmitting a committed action\<close>


lemma select_existing_after_insert:
  assumes "select_existing d aid uid = []"
  shows "select_existing (d\<lparr>actions := actions d @ [a]\<rparr>) aid uid
           = (if action_id a = aid \<and> user_id a = uid then [a] else [])"
  using assms by (simp add: select_existing_def)

lemma update_try_existing:
  assumes "select_existing d (actionId req) (userId req) \<noteq> []"
  shows "update_try schema now d req = (duplicate_action, d)"
  using assms by (simp add: update_try_def)

lemma post_scores_update_lock_free:
  assumes "redis (s::state) (lockKey (userId req) (actionId req)) = None"
  shows "post_scores_update schema now s req
           = (fst (update_try schema now (db s) req),
              s\<lparr>db := snd (update_try schema now (db s) req)\<rparr>)"
proof -
  let ?k = "lockKey (userId req) (actionId req)"
  from assms have "acquireLock (redis s) now (userId req) (actionId req) 30
      = (True, (redis s)(?k \<mapsto> (1, Some (now + 30))))"
    by (simp add: acquireLock_def redis_set_ex_nx_def redis_get_def)
  moreover have "releaseLock ((redis s)(?k \<mapsto> (1, Some (now + 30)))) (userId req) (actionId req)
      = redis s"
    using assms by (simp add: releaseLock_def redis_del_def fun_upd_idem)
  ultimately show ?thesis
    by (simp add: post_scores_update_def split: prod.splits)
qed

text \<open>
  Claim C3.  When a submission has been committed, a later submission of the same
  \<open>action_id\<close> by the same principal is answered \<open>DUPLICATE_ACTION\<close> and changes
  nothing: the actions table still holds exactly the one row of that action, the score row
  carries exactly the one update of the first submission, and the whole state is the one
  the first submission left.
\<close>

theorem duplicate_submit_rejected:
  assumes first: "post_scores_update schema now s req = (Respond 200 (SuccessBody newScore inc flag), s1)"
    and same: "userId req' = userId req" "actionId req' = actionId req"
  shows "post_scores_update schema now' s1 req' = (duplicate_action, s1)
       \<and> select_existing (db s1) (actionId req) (userId req) = [inserted_row now req]
       \<and> (\<exists>row. scores (db s) (userId req) = Some row
              \<and> scores (db s1) (userId req) = Some (updated_row row (scoreIncrement req) now))"
proof -
  from first obtain row where
    red: "redis s1 = (redis s)(lockKey (userId req) (actionId req) := None)"
    and fresh: "select_existing (db s) (actionId req) (userId req) = []"
    and row: "scores (db s) (userId req) = Some row"
    and acts: "actions (db s1) = actions (db s) @ [inserted_row now req]"
    and scs: "scores (db s1) = (scores (db s))(userId req \<mapsto> updated_row row (scoreIncrement req) now)"
    by (rule post_scores_update_success)
  from fresh acts have one: "select_existing (db s1) (actionId req) (userId req) = [inserted_row now req]"
    by (simp add: select_existing_def inserted_row_def)
  from red have free: "redis s1 (lockKey (userId req') (actionId req')) = None"
    by (simp add: same)
  from one have "update_try schema now' (db s1) req' = (duplicate_action, db s1)"
    by (intro update_try_existing) (simp add: same)
  with post_scores_update_lock_free [OF free, of schema now']
  have "post_scores_update schema now' s1 req' = (duplicate_action, s1)" by simp
  with one row scs show ?thesis by simp
qed

theorem duplicate_submit_rejected_witness:
  "fst (post_scores_update readme_schema 5 scenario_state scenario_request)
     = Respond 200 (SuccessBody 150 50 True)
 \<and> post_scores_update readme_schema 9
       (snd (post_scores_update readme_schema 5 scenario_state scenario_request)) scenario_request
     = (duplicate_action, snd (post_scores_update readme_schema 5 scenario_state scenario_request))
 \<and> select_existing (db (snd (post_scores_update readme_schema 5 scenario_state scenario_request)))
       ''a1'' ''A'' = [inserted_row 5 scenario_request]"
proof -
  let ?res = "post_scores_update readme_schema 5 scenario_state scenario_request"
  have run: "?res = (Respond 200 (SuccessBody 150 50 True), snd ?res)"
    using scenario_first by (simp add: prod_eq_iff)
  from duplicate_submit_rejected [OF run refl refl, of 9] scenario_first
  show ?thesis by (simp add: scenario_request_def)
qed


subsection \<open>Uniqueness of \<open>action_id\<close> across principals\<close>


lemma select_existing_iff:
  "select_existing d aid uid \<noteq> [] \<longleftrightarrow> list_ex (\<lambda>b. action_id b = aid \<and> user_id b = uid) (actions d)"
  by (auto simp: select_existing_def filter_empty_conv list_ex_iff)

lemma find_global_violation:
  assumes inst: "unique_action_id \<in> set schema"
    and dup: "list_ex (\<lambda>b. action_id b = action_id a) rows"
    and other: "\<not> list_ex (\<lambda>b. action_id b = action_id a \<and> user_id b = user_id a) rows"
  shows "find (violates rows a) schema = Some unique_action_id"
proof -
  from inst dup have "\<exists>c \<in> set schema. violates rows a c"
    by (intro bexI [of _ unique_action_id]) simp_all
  then have "find (violates rows a) schema \<noteq> None"
    by (auto simp: find_None_iff)
  then obtain c where found: "find (violates rows a) schema = Some c"
    by blast
  then have "violates rows a c" by (auto simp: find_Some_iff)
  with other have "c = unique_action_id" by (cases c) simp_all
  with found show ?thesis by simp
qed

lemma update_try_replay:
  assumes inst: "unique_action_id \<in> set schema"
    and typed: "int4 (scoreIncrement req)"
    and dup: "list_ex (\<lambda>b. action_id b = actionId req) (actions d)"
  shows "update_try schema now d req = (duplicate_action, d)"
proof (cases "select_existing d (actionId req) (userId req) = []")
  case False
  then show ?thesis by (rule update_try_existing)
next
  case True
  then have "\<not> list_ex (\<lambda>b. action_id b = actionId req \<and> user_id b = userId req) (actions d)"
    using select_existing_iff [of d "actionId req" "userId req"] by simp
  with inst dup
  have "find (violates (actions d) (inserted_row now req)) schema = Some unique_action_id"
    by (intro find_global_violation) (simp_all add: inserted_row_def)
  with typed have "transaction schema now d req = Inl (UniqueViolation ''unique_action_id'')"
    by (simp add: transaction_def insert_action_def inserted_row_def)
  with True show ?thesis by (simp add: update_try_def commit_step_def)
qed

lemma update_try_distinct:
  assumes inst: "unique_action_id \<in> set schema"
    and dist: "distinct (map action_id (actions d))"
  shows "distinct (map action_id (actions (snd (update_try schema now d req))))"
proof -
  obtain out d' where ut: "update_try schema now d req = (out, d')"
    by (cases "update_try schema now d req")
  then have "distinct (map action_id (actions d'))"
  proof (cases rule: update_try_cases)
    case unchanged
    with dist show ?thesis by simp
  next
    case (committed rows)
    from transaction_committed(2) [OF committed(1)] inst
    have "\<not> violates (actions d) (inserted_row now req) unique_action_id"
      by (auto simp: find_None_iff)
    then have "action_id (inserted_row now req) \<notin> action_id ` set (actions d)"
      by (auto simp: list_ex_iff)
    with dist transaction_committed(1) [OF committed(1)] show ?thesis by simp
  qed
  with ut show ?thesis by simp
qed

lemma run_updates_distinct:
  assumes "unique_action_id \<in> set schema"
  shows "distinct (map action_id (actions (db s))) \<Longrightarrow>
         distinct (map action_id (actions (db (run_updates schema s subs))))"
proof (induction subs arbitrary: s)
  case Nil
  then show ?case by simp
next
  case (Cons sub subs)
  obtain now req where sub: "sub = (now, req)" by (cases sub)
  from update_try_distinct [OF assms Cons.prems, of now req] Cons.prems
    post_scores_update_db [of schema now s req]
  have "distinct (map action_id (actions (db (snd (post_scores_update schema now s req)))))"
    by auto
  then show ?case unfolding sub by (simp add: Cons.IH)
qed

lemma commit_step_distinct:
  assumes inst: "unique_action_id \<in> set schema"
    and dist: "distinct (map action_id (actions d))"
  shows "distinct (map action_id (actions (snd (commit_step schema now d req))))"
proof -
  obtain out d' where cs: "commit_step schema now d req = (out, d')"
    by (cases "commit_step schema now d req")
  then have "distinct (map action_id (actions d'))"
  proof (cases rule: commit_step_cases)
    case unchanged
    with dist show ?thesis by simp
  next
    case (committed rows)
    from transaction_committed(2) [OF committed] inst
    have "\<not> violates (actions d) (inserted_row now req) unique_action_id"
      by (auto simp: find_None_iff)
    then have "action_id (inserted_row now req) \<notin> action_id ` set (actions d)"
      by (auto simp: list_ex_iff)
    with dist transaction_committed(1) [OF committed] show ?thesis by simp
  qed
  with cs show ?thesis by simp
qed

lemma interleaved_distinct:
  assumes inst: "unique_action_id \<in> set schema"
    and dist: "distinct (map action_id (actions (db s0)))"
    and run: "interleaved schema s0 reqs s ps"
  shows "distinct (map action_id (actions (db s)))"
  using run
proof (induction rule: interleaved.induct)
  case init
  from dist show ?case .
next
  case (advance s ps i now s' p')
  show ?case
  proof (cases "ps ! i")
    case Checked
    with advance.hyps have "db s' = snd (commit_step schema now (db s) (reqs ! i))"
      by (auto split: prod.splits)
    with commit_step_distinct [OF inst advance.IH] show ?thesis by simp
  qed (use advance in \<open>auto split: prod.splits bool.splits\<close>)
qed

lemma post_scores_update_replay:
  assumes "update_try schema now (db s) req = (duplicate_action, db s)"
  shows "db (snd (post_scores_update schema now s req)) = db s"
    and "fst (post_scores_update schema now s req)
           = (if redis_get (redis s) now (lockKey (userId req) (actionId req)) = None
              then duplicate_action else concurrent_request)"
  using assms
  by (auto simp: post_scores_update_def acquireLock_def redis_set_ex_nx_def split: option.splits)

lemma post_scores_update_unchanged:
  assumes "snd (update_try schema now (db s) req) = db s"
  shows "db (snd (post_scores_update schema now s req)) = db s"
    and "fst (post_scores_update schema now s req)
           = (if redis_get (redis s) now (lockKey (userId req) (actionId req)) = None
              then fst (update_try schema now (db s) req) else concurrent_request)"
  using assms
  by (auto simp: post_scores_update_def acquireLock_def redis_set_ex_nx_def
      split: option.splits prod.splits)

lemma update_try_out_of_range:
  assumes "select_existing d (actionId req) (userId req) = []"
    and "\<not> int4 (scoreIncrement req)"
  shows "update_try schema now d req = (Throw NumericOutOfRange, d)"
  using assms
  by (simp add: update_try_def commit_step_def transaction_def insert_action_def inserted_row_def)

lemma update_try_replayed:
  assumes inst: "unique_action_id \<in> set schema"
    and dup: "list_ex (\<lambda>b. action_id b = actionId req) (actions d)"
  shows "update_try schema now d req
           = (if select_existing d (actionId req) (userId req) = [] \<and> \<not> int4 (scoreIncrement req)
              then Throw NumericOutOfRange else duplicate_action, d)"
proof (cases "select_existing d (actionId req) (userId req) = []")
  case False
  then show ?thesis by (simp add: update_try_existing)
next
  case True
  show ?thesis
  proof (cases "int4 (scoreIncrement req)")
    case True
    with inst dup show ?thesis by (simp add: update_try_replay)
  next
    case False
    with True show ?thesis by (simp add: update_try_out_of_range)
  qed
qed

lemma update_try_pairs_distinct:
  assumes dist: "distinct (map (\<lambda>a. (action_id a, user_id a)) (actions d))"
  shows "distinct (map (\<lambda>a. (action_id a, user_id a)) (actions (snd (update_try schema now d req))))"
proof -
  obtain out d' where ut: "update_try schema now d req = (out, d')"
    by (cases "update_try schema now d req")
  then have "distinct (map (\<lambda>a. (action_id a, user_id a)) (actions d'))"
  proof (cases rule: update_try_cases)
    case unchanged
    with dist show ?thesis by simp
  next
    case (committed rows)
    from committed(2)
    have "(actionId req, userId req) \<notin> (\<lambda>a. (action_id a, user_id a)) ` set (actions d)"
      by (auto simp: select_existing_def filter_empty_conv)
    with dist transaction_committed(1) [OF committed(1)] show ?thesis
      by (simp add: inserted_row_def)
  qed
  with ut show ?thesis by simp
qed

lemma run_updates_pairs_distinct:
  "distinct (map (\<lambda>a. (action_id a, user_id a)) (actions (db s))) \<Longrightarrow>
   distinct (map (\<lambda>a. (action_id a, user_id a)) (actions (db (run_updates schema s subs))))"
proof (induction subs arbitrary: s)
  case Nil
  then show ?case by simp
next
  case (Cons sub subs)
  obtain now req where sub: "sub = (now, req)" by (cases sub)
  from update_try_pairs_distinct [OF Cons.prems, of schema now req] Cons.prems
    post_scores_update_db [of schema now s req]
  have "distinct (map (\<lambda>a. (action_id a, user_id a))
      (actions (db (snd (post_scores_update schema now s req)))))"
    by auto
  then show ?case unfolding sub by (simp add: Cons.IH)
qed

lemma commit_step_pairs_distinct:
  assumes inst: "idx_actions_unique_per_user \<in> set schema"
    and dist: "distinct (map (\<lambda>a. (action_id a, user_id a)) (actions d))"
  shows "distinct (map (\<lambda>a. (action_id a, user_id a)) (actions (snd (commit_step schema now d req))))"
proof -
  obtain out d' where cs: "commit_step schema now d req = (out, d')"
    by (cases "commit_step schema now d req")
  then have "distinct (map (\<lambda>a. (action_id a, user_id a)) (actions d'))"
  proof (cases rule: commit_step_cases)
    case unchanged
    with dist show ?thesis by simp
  next
    case (committed rows)
    from transaction_committed(2) [OF committed] inst
    have "\<not> violates (actions d) (inserted_row now req) idx_actions_unique_per_user"
      by (auto simp: find_None_iff)
    then have "(actionId req, userId req) \<notin> (\<lambda>a. (action_id a, user_id a)) ` set (actions d)"
      by (auto simp: list_ex_iff inserted_row_def)
    with dist transaction_committed(1) [OF committed] show ?thesis
      by (simp add: inserted_row_def)
  qed
  with cs show ?thesis by simp
qed

lemma interleaved_pairs_distinct:
  assumes inst: "idx_actions_unique_per_user \<in> set schema"
    and dist: "distinct (map (\<lambda>a. (action_id a, user_id a)) (actions (db s0)))"
    and run: "interleaved schema s0 reqs s ps"
  shows "distinct (map (\<lambda>a. (action_id a, user_id a)) (actions (db s)))"
  using run
proof (induction rule: interleaved.induct)
  case init
  from dist show ?case .
next
  case (advance s ps i now s' p')
  show ?case
  proof (cases "ps ! i")
    case Checked
    with advance.hyps have "db s' = snd (commit_step schema now (db s) (reqs ! i))"
      by (auto split: prod.splits)
    with commit_step_pairs_distinct [OF inst advance.IH] show ?thesis by simp
  qed (use advance in \<open>auto split: prod.splits bool.splits\<close>)
qed

text \<open>
  The counterexample to uniqueness across principals (C4).  The README's DDL gives the
  index per principal first and the constraint on \<open>action_id\<close> alone as its alternative,
  and the handler's own check reads only the principal's rows.  With the index per
  principal alone, principal \<open>B\<close> replays the \<open>action_id\<close> that principal \<open>A\<close> has
  committed, is answered with success, and the table then holds the \<open>action_id\<close> twice.
\<close>

theorem replay_by_other_principal_commits:
  "fst (post_scores_update [idx_actions_unique_per_user] 6 two_principals replay_request)
     = Respond 200 (SuccessBody 50 50 True)
 \<and> map (\<lambda>a. (action_id a, user_id a)) (actions (db (snd
       (post_scores_update [idx_actions_unique_per_user] 6 two_principals replay_request))))
     = [(''a0'', ''A''), (''a0'', ''B'')]
 \<and> \<not> distinct (map action_id (actions (db (snd
       (post_scores_update [idx_actions_unique_per_user] 6 two_principals replay_request)))))"
proof -
  have "fst (post_scores_update [idx_actions_unique_per_user] 6 two_principals replay_request)
      = Respond 200 (SuccessBody 50 50 True)"
    by code_simp
  moreover
  have rows: "map (\<lambda>a. (action_id a, user_id a)) (actions (db (snd
       (post_scores_update [idx_actions_unique_per_user] 6 two_principals replay_request))))
     = [(''a0'', ''A''), (''a0'', ''B'')]"
    by code_simp
  moreover
  have "map action_id (actions (db (snd
       (post_scores_update [idx_actions_unique_per_user] 6 two_principals replay_request))))
     = map fst [(''a0'', ''A''), (''a0'', ''B'')]"
    unfolding rows [symmetric] by (simp add: comp_def)
  then have "\<not> distinct (map action_id (actions (db (snd
       (post_scores_update [idx_actions_unique_per_user] 6 two_principals replay_request)))))"
    by simp
  ultimately show ?thesis by simp
qed

text \<open>With the constraint on \<open>action_id\<close> installed as well, the same replay is refused.\<close>

lemma replay_under_global_constraint:
  "fst (post_scores_update readme_schema 6 two_principals replay_request) = duplicate_action"
  "map (\<lambda>a. (action_id a, user_id a)) (actions (db (snd
       (post_scores_update readme_schema 6 two_principals replay_request))))
     = [(''a0'', ''A'')]"
  by code_simp+

text \<open>
  Claim C4, amended.  Where the constraint \<open>unique_action_id\<close> is installed, no two
  committed action rows share an \<open>action_id\<close>, whoever their principals are, and this
  stays so over any run of submissions, one after the other or side by side; and a
  submission, handled on its own, whose \<open>action_id\<close> is already committed by any
  principal commits nothing and is answered \<open>DUPLICATE_ACTION\<close> (\<open>CONCURRENT_REQUEST\<close>
  while the lock of its principal and action is held; the store's range error when the
  action is another principal's and the increment does not fit the \<open>INT\<close> column).
  Whatever is installed, no two committed rows of one principal share an \<open>action_id\<close>
  over any run of submissions handled one after the other, and with the index
  \<open>idx_actions_unique_per_user\<close> also side by side; and a principal's submission of an
  \<open>action_id\<close> it has committed itself commits nothing and is answered
  \<open>DUPLICATE_ACTION\<close> (\<open>CONCURRENT_REQUEST\<close> while the lock is held).
\<close>

theorem action_id_unique_where_constrained:
  "(unique_action_id \<in> set schema \<longrightarrow>
      (distinct (map action_id (actions (db s))) \<longrightarrow>
         distinct (map action_id (actions (db (run_updates schema s subs))))
       \<and> (\<forall>reqs s' ps. interleaved schema s reqs s' ps \<longrightarrow>
              distinct (map action_id (actions (db s')))))
    \<and> (list_ex (\<lambda>b. action_id b = actionId req) (actions (db s)) \<longrightarrow>
         db (snd (post_scores_update schema now s req)) = db s
       \<and> fst (post_scores_update schema now s req)
           = (if redis_get (redis s) now (lockKey (userId req) (actionId req)) = None
              then if select_existing (db s) (actionId req) (userId req) = []
                      \<and> \<not> int4 (scoreIncrement req)
                   then Throw NumericOutOfRange else duplicate_action
              else concurrent_request)))
 \<and> (distinct (map (\<lambda>a. (action_id a, user_id a)) (actions (db s))) \<longrightarrow>
      distinct (map (\<lambda>a. (action_id a, user_id a)) (actions (db (run_updates schema s subs))))
    \<and> (idx_actions_unique_per_user \<in> set schema \<longrightarrow>
         (\<forall>reqs s' ps. interleaved schema s reqs s' ps \<longrightarrow>
            distinct (map (\<lambda>a. (action_id a, user_id a)) (actions (db s'))))))
 \<and> (select_existing (db s) (actionId req) (userId req) \<noteq> [] \<longrightarrow>
      db (snd (post_scores_update schema now s req)) = db s
    \<and> fst (post_scores_update schema now s req)
        = (if redis_get (redis s) now (lockKey (userId req) (actionId req)) = None
           then duplicate_action else concurrent_request))"
proof (intro conjI impI allI)
  assume inst: "unique_action_id \<in> set schema"
  {
    assume dist: "distinct (map action_id (actions (db s)))"
    from inst dist show "distinct (map action_id (actions (db (run_updates schema s subs))))"
      by (rule run_updates_distinct)
    fix reqs s' ps
    assume "interleaved schema s reqs s' ps"
    with inst dist show "distinct (map action_id (actions (db s')))"
      by (rule interleaved_distinct)
  }
  assume dup: "list_ex (\<lambda>b. action_id b = actionId req) (actions (db s))"
  note replayed = update_try_replayed [OF inst dup, of now]
  then have same: "snd (update_try schema now (db s) req) = db s" by simp
  from same show "db (snd (post_scores_update schema now s req)) = db s"
    by (rule post_scores_update_unchanged)
  from post_scores_update_unchanged(2) [OF same] replayed
  show "fst (post_scores_update schema now s req)
      = (if redis_get (redis s) now (lockKey (userId req) (actionId req)) = None
         then if select_existing (db s) (actionId req) (userId req) = []
                 \<and> \<not> int4 (scoreIncrement req)
              then Throw NumericOutOfRange else duplicate_action
         else concurrent_request)"
    by simp
next
  assume dist: "distinct (map (\<lambda>a. (action_id a, user_id a)) (actions (db s)))"
  then show "distinct (map (\<lambda>a. (action_id a, user_id a)) (actions (db (run_updates schema s subs))))"
    by (rule run_updates_pairs_distinct)
  fix reqs s' ps
  assume per_user: "idx_actions_unique_per_user \<in> set schema"
    and run: "interleaved schema s reqs s' ps"
  from per_user dist run
  show "distinct (map (\<lambda>a. (action_id a, user_id a)) (actions (db s')))"
    by (rule interleaved_pairs_distinct)
next
  assume "select_existing (db s) (actionId req) (userId req) \<noteq> []"
  then have own: "update_try schema now (db s) req = (duplicate_action, db s)"
    by (rule update_try_existing)
  then have same: "snd (update_try schema now (db s) req) = db s" by simp
  from same show "db (snd (post_scores_update schema now s req)) = db s"
    by (rule post_scores_update_unchanged)
  from post_scores_update_unchanged(2) [OF same] own
  show "fst (post_scores_update schema now s req)
      = (if redis_get (redis s) now (lockKey (userId req) (actionId req)) = None
         then duplicate_action else concurrent_request)"
    by simp
qed

theorem action_id_unique_where_constrained_witness:
  "unique_action_id \<in> set readme_schema
 \<and> distinct (map action_id (actions (db scenario_state)))
 \<and> distinct (map action_id (actions (db (run_updates readme_schema scenario_state
       [(5, scenario_request), (6, replay_request)]))))
 \<and> list_ex (\<lambda>b. action_id b = actionId replay_request) (actions (db scenario_state))
 \<and> user_id (hd (actions (db scenario_state))) \<noteq> userId replay_request
 \<and> db (snd (post_scores_update readme_schema 6 scenario_state replay_request))
      = db scenario_state
 \<and> fst (post_scores_update readme_schema 6 scenario_state replay_request) = duplicate_action
 \<and> distinct (map (\<lambda>a. (action_id a, user_id a)) (actions (db two_principals)))
 \<and> distinct (map (\<lambda>a. (action_id a, user_id a))
      (actions (db (run_updates [idx_actions_unique_per_user] two_principals
         [(6, replay_request), (7, replay_request)]))))"
proof -
  have inst: "unique_action_id \<in> set readme_schema" by (simp add: readme_schema_def)
  have dist: "distinct (map action_id (actions (db scenario_state)))"
    by (simp add: scenario_state_def)
  have typed: "int4 (scoreIncrement replay_request)"
    by (simp add: int4_def replay_request_def)
  have dup: "list_ex (\<lambda>b. action_id b = actionId replay_request) (actions (db scenario_state))"
    by (simp add: scenario_state_def replay_request_def)
  have free: "redis_get (redis scenario_state) 6
      (lockKey (userId replay_request) (actionId replay_request)) = None"
    by (simp add: scenario_state_def redis_get_def)
  have other: "user_id (hd (actions (db scenario_state))) \<noteq> userId replay_request"
    by (simp add: scenario_state_def replay_request_def)
  have pairs: "distinct (map (\<lambda>a. (action_id a, user_id a)) (actions (db two_principals)))"
    by (simp add: two_principals_def scenario_state_def)
  note global = action_id_unique_where_constrained [of readme_schema scenario_state
      "[(5, scenario_request), (6, replay_request)]" replay_request 6,
      THEN conjunct1, THEN mp, OF inst]
  note run = global [THEN conjunct1, THEN mp, OF dist, THEN conjunct1]
  note replayed = global [THEN conjunct2, THEN mp, OF dup]
  from replayed have same: "db (snd (post_scores_update readme_schema 6 scenario_state replay_request))
      = db scenario_state"
    by (rule conjunct1)
  from replayed [THEN conjunct2] free typed
  have refused: "fst (post_scores_update readme_schema 6 scenario_state replay_request)
      = duplicate_action"
    by (simp only: if_True if_False simp_thms)
  note per_user = action_id_unique_where_constrained [of "[idx_actions_unique_per_user]"
      two_principals "[(6, replay_request), (7, replay_request)]" replay_request 6,
      THEN conjunct2, THEN conjunct1, THEN mp, OF pairs, THEN conjunct1]
  show ?thesis
    by (intro conjI inst dist run dup other same refused pairs per_user)
qed


subsection \<open>Rate limiting and the bound on increments\<close>



lemma actionRateLimit_full:
  assumes "actionRateLimits (actionType req) = Some limits"
    and "window_full r now (rateKey req) limits"
  shows "actionRateLimit r now req = (rate_limited, r)"
  using assms by (simp add: actionRateLimit_def)

lemma actionRateLimit_first:
  assumes "actionRateLimits (actionType req) = Some limits"
    and "redis_get r now (rateKey req) = None"
  shows "actionRateLimit r now req
    = (Next, r(rateKey req \<mapsto> (1, Some (now + (limit_window limits + 999) div 1000))))"
  using assms
  by (simp add: actionRateLimit_def window_full_def redis_incr_def redis_expire_def redis_get_def)

lemma actionRateLimit_next:
  assumes "actionRateLimits (actionType req) = Some limits"
    and "redis_get r now (rateKey req) = Some current" and "current < limit_max limits"
  shows "actionRateLimit r now req
    = (Next, r(rateKey req \<mapsto> (current + 1, Some (now + (limit_window limits + 999) div 1000))))"
  using assms
  by (auto simp: actionRateLimit_def window_full_def redis_incr_def redis_expire_def redis_get_def
      split: option.splits if_splits)

lemma scenario_limits:
  "actionRateLimits (actionType scenario_request) = Some \<lparr>limit_window = 60000, limit_max = 5\<rparr>"
  by (simp add: actionRateLimits_def scenario_request_def)

lemma run_rate_limit_Cons:
  assumes "actionRateLimit r now req = (res, r')" and "run_rate_limit r' rest = (ress, r'')"
  shows "run_rate_limit r ((now, req) # rest) = (res # ress, r'')"
  using assms by simp

lemma five_accepted:
  "run_rate_limit Map.empty (map (\<lambda>now. (now, scenario_request)) [1, 2, 3, 4, 5])
     = ([Next, Next, Next, Next, Next], full_window)"
proof -
  let ?k = "rateKey scenario_request"
  have 1: "actionRateLimit Map.empty 1 scenario_request = (Next, [?k \<mapsto> (1, Some 61)])"
    by (subst actionRateLimit_first [OF scenario_limits]) (simp_all add: redis_get_def)
  have 2: "actionRateLimit [?k \<mapsto> (1, Some 61)] 2 scenario_request = (Next, [?k \<mapsto> (2, Some 62)])"
    by (subst actionRateLimit_next [OF scenario_limits, of _ _ 1]) (simp_all add: redis_get_def)
  have 3: "actionRateLimit [?k \<mapsto> (2, Some 62)] 3 scenario_request = (Next, [?k \<mapsto> (3, Some 63)])"
    by (subst actionRateLimit_next [OF scenario_limits, of _ _ 2]) (simp_all add: redis_get_def)
  have 4: "actionRateLimit [?k \<mapsto> (3, Some 63)] 4 scenario_request = (Next, [?k \<mapsto> (4, Some 64)])"
    by (subst actionRateLimit_next [OF scenario_limits, of _ _ 3]) (simp_all add: redis_get_def)
  have 5: "actionRateLimit [?k \<mapsto> (4, Some 64)] 5 scenario_request = (Next, [?k \<mapsto> (5, Some 65)])"
    by (subst actionRateLimit_next [OF scenario_limits, of _ _ 4]) (simp_all add: redis_get_def)
  show ?thesis
    unfolding full_window_def list.map
    by (intro run_rate_limit_Cons [OF 1] run_rate_limit_Cons [OF 2] run_rate_limit_Cons [OF 3]
          run_rate_limit_Cons [OF 4] run_rate_limit_Cons [OF 5]) simp
qed

text \<open>
  Claim C5.  While the live counter of a principal and action type has reached the
  configured maximum, every submission of that principal and type is answered
  \<open>ACTION_RATE_LIMIT\<close> (status 429) without \<open>next\<close> being called, and Redis, the counter
  included, is left as it was; so every further submission in the same window is rejected
  in the same way.
\<close>

theorem rate_limited_when_window_full:
  assumes cfg: "actionRateLimits (actionType req) = Some limits"
    and full: "list_all (\<lambda>now. window_full r now (rateKey req) limits) nows"
  shows "run_rate_limit r (map (\<lambda>now. (now, req)) nows)
           = (replicate (length nows) rate_limited, r)"
  using full
proof (induction nows)
  case Nil
  show ?case by simp
next
  case (Cons now nows)
  from Cons.prems have "window_full r now (rateKey req) limits" by simp
  with cfg have "actionRateLimit r now req = (rate_limited, r)"
    by (rule actionRateLimit_full)
  moreover from Cons have "run_rate_limit r (map (\<lambda>now. (now, req)) nows)
      = (replicate (length nows) rate_limited, r)"
    by simp
  ultimately show ?case by simp
qed

theorem rate_limited_when_window_full_witness:
  "actionRateLimits (actionType scenario_request) = Some \<lparr>limit_window = 60000, limit_max = 5\<rparr>
 \<and> list_all (\<lambda>now. window_full full_window now (rateKey scenario_request)
      \<lparr>limit_window = 60000, limit_max = 5\<rparr>) [6, 7, 64]
 \<and> run_rate_limit full_window (map (\<lambda>now. (now, scenario_request)) [6, 7, 64])
      = ([rate_limited, rate_limited, rate_limited], full_window)"
proof -
  have full: "list_all (\<lambda>now. window_full full_window now (rateKey scenario_request)
      \<lparr>limit_window = 60000, limit_max = 5\<rparr>) [6, 7, 64]"
    by (simp add: window_full_def full_window_def redis_get_def)
  from rate_limited_when_window_full [OF scenario_limits full] scenario_limits full
  show ?thesis by (simp add: numeral_3_eq_3)
qed

text \<open>
  Claim C6.  The README limits the increment of one action to 1000 points, and the claim
  has a submission above the bound refused before any state change.  Neither the
  middleware nor the handler looks at the size of \<open>scoreIncrement\<close>: a submission worth
  5000 points passes the rate limiter, is answered with success, and has its action row
  inserted and the score raised from 100 to 5100.
\<close>

theorem over_limit_increment_committed:
  "fst (actionRateLimit (redis scenario_state) 5 over_limit_request) = Next
 \<and> fst (post_scores_update readme_schema 5 scenario_state over_limit_request)
     = Respond 200 (SuccessBody 5100 5000 True)
 \<and> map score_value (actions (db (snd (post_scores_update readme_schema 5 scenario_state over_limit_request))))
     = [100, 5000]
 \<and> map_option current_score
       (scores (db (snd (post_scores_update readme_schema 5 scenario_state over_limit_request))) ''A'')
     = Some 5100"
proof (intro conjI)
  show "fst (actionRateLimit (redis scenario_state) 5 over_limit_request) = Next"
    by (simp add: actionRateLimit_def actionRateLimits_def window_full_def redis_get_def
        scenario_state_def over_limit_request_def)
  show "fst (post_scores_update readme_schema 5 scenario_state over_limit_request)
     = Respond 200 (SuccessBody 5100 5000 True)"
    by code_simp
  show "map score_value (actions (db (snd (post_scores_update readme_schema 5 scenario_state over_limit_request))))
     = [100, 5000]"
    by code_simp
  show "map_option current_score
       (scores (db (snd (post_scores_update readme_schema 5 scenario_state over_limit_request))) ''A'')
     = Some 5100"
    by code_simp
qed



subsection \<open>Concurrent submissions of one action\<close>

text \<open>
  \<open>N\<close> submissions of the same request, started together at time \<open>t0\<close> in state \<open>s0\<close>
  and interleaved in any order.  Every step happens before the first lock taken could
  expire, that is less than 30 seconds after \<open>t0\<close>.
\<close>

inductive reachable :: "constraint list \<Rightarrow> request \<Rightarrow> nat \<Rightarrow> state \<Rightarrow> nat \<Rightarrow> state \<Rightarrow> pc list \<Rightarrow> bool"
  for schema :: "constraint list" and req :: request and t0 :: nat and s0 :: state and N :: nat
where
  start: "reachable schema req t0 s0 N s0 (replicate N Start)"
| step: "reachable schema req t0 s0 N s ps \<Longrightarrow> i < length ps \<Longrightarrow> t0 \<le> now \<Longrightarrow> now < t0 + 30 \<Longrightarrow>
         proc_step schema req now s (ps ! i) = Some (s', p') \<Longrightarrow>
         reachable schema req t0 s0 N s' (ps[i := p'])"

definition all_done :: "pc list \<Rightarrow> bool" where
  "all_done ps = list_all (\<lambda>p. case p of Done out \<Rightarrow> True | _ \<Rightarrow> False) ps"

text \<open>The steps a submission still has to take; every step of the system lowers the sum.\<close>

fun steps_left :: "pc \<Rightarrow> nat" where
  "steps_left Start = 4"
| "steps_left Locked = 3"
| "steps_left Checked = 2"
| "steps_left (Finishing out) = 1"
| "steps_left (Done out) = 0"

text \<open>
  The starting state for the result below: the lock of the principal and action is free,
  the principal has a score row, the increment and the new totals fit the \<open>INT\<close> columns,
  and no committed action carries the \<open>action_id\<close>.
\<close>

definition ready :: "state \<Rightarrow> request \<Rightarrow> score \<Rightarrow> bool" where
  "ready s0 req row \<longleftrightarrow>
     redis s0 (lockKey (userId req) (actionId req)) = None
   \<and> scores (db s0) (userId req) = Some row
   \<and> int4 (scoreIncrement req)
   \<and> int4 (current_score row + scoreIncrement req)
   \<and> int4 (total_actions row + 1)
   \<and> \<not> list_ex (\<lambda>b. action_id b = actionId req) (actions (db s0))"

definition committed_db :: "db \<Rightarrow> score \<Rightarrow> request \<Rightarrow> nat \<Rightarrow> db" where
  "committed_db d row req now =
     d\<lparr>actions := actions d @ [inserted_row now req],
       scores := (scores d)(userId req \<mapsto> updated_row row (scoreIncrement req) now)\<rparr>"

definition accepted :: "score \<Rightarrow> request \<Rightarrow> outcome" where
  "accepted row req =
     Respond 200 (SuccessBody (current_score row + scoreIncrement req) (scoreIncrement req) True)"

fun critical :: "pc \<Rightarrow> bool" where
  "critical Locked = True"
| "critical Checked = True"
| "critical (Finishing out) = True"
| "critical p = False"

text \<open>
  The facts that hold in every reachable configuration, as counts of submissions: at most
  one submission is between taking and releasing the lock, and the lock is held exactly
  then; before the commit the database is untouched, and a submission has been turned
  away only while another one holds the lock; after the commit exactly one submission has
  been accepted and no other can reach the transaction.
\<close>

definition cnt :: "(pc \<Rightarrow> bool) \<Rightarrow> pc list \<Rightarrow> nat" where
  "cnt P ps = length (filter P ps)"

definition lock_inv :: "request \<Rightarrow> nat \<Rightarrow> state \<Rightarrow> pc list \<Rightarrow> bool" where
  "lock_inv req t0 s ps \<longleftrightarrow>
     cnt critical ps \<le> 1
   \<and> (if cnt critical ps = 0
      then redis s (lockKey (userId req) (actionId req)) = None
      else \<exists>t \<ge> t0. redis s (lockKey (userId req) (actionId req)) = Some (1, Some (t + 30)))"

definition pending_pc :: "pc \<Rightarrow> bool" where
  "pending_pc p \<longleftrightarrow> p \<in> {Start, Locked, Checked, Done concurrent_request}"

definition pending :: "state \<Rightarrow> state \<Rightarrow> pc list \<Rightarrow> bool" where
  "pending s0 s ps \<longleftrightarrow>
     db s = db s0
   \<and> cnt (\<lambda>p. \<not> pending_pc p) ps = 0
   \<and> (0 < cnt (\<lambda>p. p = Done concurrent_request) ps \<longrightarrow> 0 < cnt critical ps)"

definition won :: "score \<Rightarrow> request \<Rightarrow> pc \<Rightarrow> bool" where
  "won row req p \<longleftrightarrow> p \<in> {Finishing (accepted row req), Done (accepted row req)}"

definition settled_pc :: "score \<Rightarrow> request \<Rightarrow> pc \<Rightarrow> bool" where
  "settled_pc row req p \<longleftrightarrow>
     p \<in> {Start, Locked, Finishing (accepted row req), Done (accepted row req),
          Finishing duplicate_action, Done duplicate_action, Done concurrent_request}"

definition settled :: "state \<Rightarrow> request \<Rightarrow> score \<Rightarrow> state \<Rightarrow> pc list \<Rightarrow> bool" where
  "settled s0 req row s ps \<longleftrightarrow>
     (\<exists>now. db s = committed_db (db s0) row req now)
   \<and> cnt (won row req) ps = 1
   \<and> cnt (\<lambda>p. \<not> settled_pc row req p) ps = 0"

text \<open>
  Whatever the timing: once a lock can expire under its holder, the store's uniqueness
  rule is what keeps the action from being committed twice.  A submission is then turned
  away with one of the two 409 answers or, where the rule that fires is the index per
  principal, with the violation that the handler throws on.  Before the commit the
  database is untouched and a submission has been turned away only while another holds
  the lock; after it exactly one submission has been accepted.
\<close>

definition thrown_duplicate :: outcome where
  "thrown_duplicate = Throw (UniqueViolation ''idx_actions_unique_per_user'')"

definition rejected :: "constraint list \<Rightarrow> outcome \<Rightarrow> bool" where
  "rejected schema out \<longleftrightarrow>
     out = duplicate_action \<or> out = concurrent_request
   \<or> (hd schema = idx_actions_unique_per_user \<and> out = thrown_duplicate)"

definition holding :: "pc \<Rightarrow> bool" where
  "holding p \<longleftrightarrow> p = Locked \<or> p = Checked"

definition untouched :: "state \<Rightarrow> request \<Rightarrow> state \<Rightarrow> pc list \<Rightarrow> bool" where
  "untouched s0 req s ps \<longleftrightarrow>
     db s = db s0
   \<and> cnt (\<lambda>p. \<not> pending_pc p) ps = 0
   \<and> (redis s (lockKey (userId req) (actionId req)) = None
        \<and> cnt (\<lambda>p. p = Done concurrent_request) ps = 0
      \<or> 0 < cnt holding ps)"

fun resolved_pc :: "constraint list \<Rightarrow> score \<Rightarrow> request \<Rightarrow> pc \<Rightarrow> bool" where
  "resolved_pc schema row req (Finishing out) = (out = accepted row req \<or> rejected schema out)"
| "resolved_pc schema row req (Done out) = (out = accepted row req \<or> rejected schema out)"
| "resolved_pc schema row req p = True"

definition committed_once :: "constraint list \<Rightarrow> state \<Rightarrow> request \<Rightarrow> score \<Rightarrow> state \<Rightarrow> pc list \<Rightarrow> bool" where
  "committed_once schema s0 req row s ps \<longleftrightarrow>
     (\<exists>now. db s = committed_db (db s0) row req now)
   \<and> cnt (won row req) ps = 1
   \<and> cnt (\<lambda>p. \<not> resolved_pc schema row req p) ps = 0"


text \<open>The runs of one request within the lock's lifetime are among the interleavings.\<close>

lemma reachable_interleaved:
  assumes "reachable schema req t0 s0 N s ps"
  shows "interleaved schema s0 (replicate N req) s ps \<and> length ps = N"
  using assms
proof (induction rule: reachable.induct)
  case start
  from interleaved.init [of schema s0 "replicate N req"] show ?case by simp
next
  case (step s ps i now s' p')
  then have "proc_step schema (replicate N req ! i) now s (ps ! i) = Some (s', p')" by simp
  with step show ?case by (auto intro: interleaved.advance)
qed

text \<open>A submission that runs its four steps alone is the handler \<open>post_scores_update\<close>.\<close>

lemma complete_alone:
  "complete 4 schema req now s Start = Some (post_scores_update schema now s req)"
  by (auto simp: post_scores_update_def update_try_def numeral_eq_Suc acquireLock_def
        redis_set_ex_nx_def releaseLock_def
      split: prod.splits option.splits bool.splits)

lemma ready_fresh:
  assumes "ready s0 req row"
  shows "select_existing (db s0) (actionId req) (userId req) = []"
  using assms by (auto simp: ready_def select_existing_def list_ex_iff filter_empty_conv)

lemma ready_commit:
  assumes "ready s0 req row"
  shows "commit_step schema now (db s0) req = (accepted row req, committed_db (db s0) row req now)"
proof -
  from assms have "\<And>c. \<not> violates (actions (db s0)) (inserted_row now req) c"
    subgoal for c by (cases c) (auto simp: ready_def list_ex_iff inserted_row_def)
    done
  then have "find (violates (actions (db s0)) (inserted_row now req)) schema = None"
    by (simp add: find_None_iff)
  with assms show ?thesis
    by (simp add: commit_step_def transaction_def insert_action_def update_score_def ready_def
        inserted_row_def committed_db_def accepted_def updated_row_def)
qed

lemma committed_existing:
  "select_existing (committed_db d row req now) (actionId req) (userId req) \<noteq> []"
  by (simp add: select_existing_def committed_db_def inserted_row_def)

lemma outcomes_distinct:
  "accepted row req \<noteq> duplicate_action" "accepted row req \<noteq> concurrent_request"
  "duplicate_action \<noteq> concurrent_request"
  by (simp_all add: accepted_def duplicate_action_def concurrent_request_def)



lemma cnt_update:
  "i < length ps \<Longrightarrow>
     cnt P (ps[i := x]) + (if P (ps ! i) then 1 else 0) = cnt P ps + (if P x then 1 else 0)"
  unfolding cnt_def
proof (induction ps arbitrary: i)
  case Nil
  then show ?case by simp
next
  case (Cons p ps)
  then show ?case by (cases i) auto
qed

lemma cnt_replicate: "cnt P (replicate n p) = (if P p then n else 0)"
  by (simp add: cnt_def)

lemma cnt_zero_iff: "cnt P ps = 0 \<longleftrightarrow> (\<forall>p \<in> set ps. \<not> P p)"
  by (simp add: cnt_def filter_empty_conv)

lemma cnt_pos: "i < length ps \<Longrightarrow> P (ps ! i) \<Longrightarrow> 0 < cnt P ps"
  by (metis cnt_zero_iff gr0I nth_mem)

lemma cnt_le_one_unique:
  assumes "cnt P ps \<le> 1" "i < length ps" "j < length ps" "P (ps ! i)" "P (ps ! j)"
  shows "i = j"
proof (rule ccontr)
  assume "i \<noteq> j"
  have split: "ps = take i ps @ ps ! i # drop (Suc i) ps"
    using assms(2) by (rule id_take_nth_drop)
  have "cnt P ps = cnt P (take i ps) + 1 + cnt P (drop (Suc i) ps)"
    by (subst split) (simp add: cnt_def assms(4))
  moreover have "ps ! j \<in> set (take i ps) \<union> set (drop (Suc i) ps)"
  proof (cases "j < i")
    case True
    then have "take i ps ! j = ps ! j" by simp
    moreover from True assms(2) have "j < length (take i ps)" by simp
    ultimately show ?thesis by (metis UnI1 nth_mem)
  next
    case False
    with \<open>i \<noteq> j\<close> have "Suc i \<le> j" by simp
    then obtain d where d: "j = Suc i + d" by (metis le_Suc_ex)
    with assms(3) have "d < length (drop (Suc i) ps)" by simp
    moreover from d assms(3) have "drop (Suc i) ps ! d = ps ! j" by simp
    ultimately show ?thesis by (metis UnI2 nth_mem)
  qed
  then have "0 < cnt P (take i ps) + cnt P (drop (Suc i) ps)"
    using assms(5) by (auto simp: cnt_def filter_empty_conv)
  ultimately show False using assms(1) by simp
qed

lemma start_inv:
  assumes "ready s0 req row"
  shows "lock_inv req t0 s0 (replicate N Start)" and "pending s0 s0 (replicate N Start)"
  using assms by (simp_all add: lock_inv_def pending_def ready_def cnt_replicate pending_pc_def)

lemma acquire_free:
  assumes "redis s (lockKey (userId req) (actionId req)) = None"
  shows "proc_step schema req now s Start
    = Some (s\<lparr>redis := (redis s)(lockKey (userId req) (actionId req) \<mapsto> (1, Some (now + 30)))\<rparr>, Locked)"
  using assms by (simp add: acquireLock_def redis_set_ex_nx_def redis_get_def)

lemma acquire_held:
  assumes "redis s (lockKey (userId req) (actionId req)) = Some (1, Some (t + 30))"
    and "t0 \<le> t" and "now < t0 + 30"
  shows "proc_step schema req now s Start = Some (s, Done concurrent_request)"
  using assms by (simp add: acquireLock_def redis_set_ex_nx_def redis_get_def)

text \<open>The invariant of a configuration: the lock facts, and the database either
  untouched or committed once.\<close>

lemma step_Start:
  assumes lock: "lock_inv req t0 s ps"
    and phase: "pending s0 s ps \<or> settled s0 req row s ps"
    and i: "i < length ps" "ps ! i = Start"
    and now: "t0 \<le> now" "now < t0 + 30"
    and st: "proc_step schema req now s Start = Some (s', p')"
  shows "lock_inv req t0 s' (ps[i := p']) \<and> (pending s0 s' (ps[i := p']) \<or> settled s0 req row s' (ps[i := p']))"
proof (cases "cnt critical ps = 0")
  case True
  with lock have free: "redis s (lockKey (userId req) (actionId req)) = None"
    by (simp add: lock_inv_def)
  from st acquire_free [OF free, of schema now]
  have s': "s' = s\<lparr>redis := (redis s)(lockKey (userId req) (actionId req) \<mapsto> (1, Some (now + 30)))\<rparr>"
    and p': "p' = Locked"
    by simp_all
  note upd = cnt_update [OF i(1), of _ Locked, unfolded i(2)]
  have "lock_inv req t0 s' (ps[i := Locked])"
    using True now upd [of critical] by (auto simp: lock_inv_def s')
  moreover have "pending s0 s' (ps[i := Locked])" if "pending s0 s ps"
    using that upd [of critical] upd [of "\<lambda>p. \<not> pending_pc p"]
      upd [of "\<lambda>p. p = Done concurrent_request"]
    by (auto simp: pending_def s' pending_pc_def)
  moreover have "settled s0 req row s' (ps[i := Locked])" if "settled s0 req row s ps"
    using that upd [of "won row req"] upd [of "\<lambda>p. \<not> settled_pc row req p"]
    by (auto simp: settled_def s' settled_pc_def won_def)
  ultimately show ?thesis using phase p' by blast
next
  case False
  with lock obtain t where t: "t0 \<le> t"
      "redis s (lockKey (userId req) (actionId req)) = Some (1, Some (t + 30))"
    by (auto simp: lock_inv_def)
  from st acquire_held [OF t(2) t(1) now(2), of schema]
  have s': "s' = s" and p': "p' = Done concurrent_request" by simp_all
  note upd = cnt_update [OF i(1), of _ "Done concurrent_request", unfolded i(2)]
  have "lock_inv req t0 s (ps[i := Done concurrent_request])"
    using lock upd [of critical] by (auto simp: lock_inv_def)
  moreover have "pending s0 s (ps[i := Done concurrent_request])" if "pending s0 s ps"
    using that False upd [of critical] upd [of "\<lambda>p. \<not> pending_pc p"]
    by (auto simp: pending_def pending_pc_def)
  moreover have "settled s0 req row s (ps[i := Done concurrent_request])" if "settled s0 req row s ps"
    using that upd [of "won row req"] upd [of "\<lambda>p. \<not> settled_pc row req p"] outcomes_distinct(2) [of row req]
    by (auto simp: settled_def settled_pc_def won_def)
  ultimately show ?thesis using phase s' p' by blast
qed


lemma step_Locked:
  assumes rdy: "ready s0 req row"
    and lock: "lock_inv req t0 s ps"
    and phase: "pending s0 s ps \<or> settled s0 req row s ps"
    and i: "i < length ps" "ps ! i = Locked"
    and st: "proc_step schema req now s Locked = Some (s', p')"
  shows "lock_inv req t0 s' (ps[i := p']) \<and> (pending s0 s' (ps[i := p']) \<or> settled s0 req row s' (ps[i := p']))"
proof -
  from st have s': "s' = s"
    and p': "p' = (if select_existing (db s) (actionId req) (userId req) \<noteq> []
                   then Finishing duplicate_action else Checked)"
    by auto
  note upd = cnt_update [OF i(1), of _ p', unfolded i(2)]
  have crit: "critical p'" by (simp add: p')
  have "lock_inv req t0 s (ps[i := p'])"
    using lock upd [of critical] crit by (auto simp: lock_inv_def)
  moreover have "pending s0 s (ps[i := p'])" if pend: "pending s0 s ps"
  proof -
    from pend ready_fresh [OF rdy] have "p' = Checked" by (simp add: p' pending_def)
    with pend upd [of critical] upd [of "\<lambda>p. \<not> pending_pc p"]
      upd [of "\<lambda>p. p = Done concurrent_request"]
    show ?thesis by (auto simp: pending_def pending_pc_def)
  qed
  moreover have "settled s0 req row s (ps[i := p'])" if sett: "settled s0 req row s ps"
  proof -
    from sett committed_existing [of "db s0" row req] have "p' = Finishing duplicate_action"
      by (auto simp: p' settled_def)
    with sett upd [of "won row req"] upd [of "\<lambda>p. \<not> settled_pc row req p"]
      outcomes_distinct(1) [of row req]
    show ?thesis by (auto simp: settled_def settled_pc_def won_def)
  qed
  ultimately show ?thesis using phase s' by blast
qed

lemma step_Checked:
  assumes rdy: "ready s0 req row"
    and lock: "lock_inv req t0 s ps"
    and phase: "pending s0 s ps \<or> settled s0 req row s ps"
    and i: "i < length ps" "ps ! i = Checked"
    and st: "proc_step schema req now s Checked = Some (s', p')"
  shows "lock_inv req t0 s' (ps[i := p']) \<and> settled s0 req row s' (ps[i := p'])"
proof -
  have "\<not> settled s0 req row s ps"
  proof
    assume "settled s0 req row s ps"
    then have "\<forall>p \<in> set ps. settled_pc row req p"
      by (simp add: settled_def cnt_zero_iff)
    with i have "settled_pc row req Checked" by (metis nth_mem)
    then show False by (simp add: settled_pc_def)
  qed
  with phase have pend: "pending s0 s ps" by simp
  then have db: "db s = db s0" by (simp add: pending_def)
  from st ready_commit [OF rdy, of schema now] db
  have s': "s' = s\<lparr>db := committed_db (db s0) row req now\<rparr>"
    and p': "p' = Finishing (accepted row req)"
    by simp_all
  note upd = cnt_update [OF i(1), of _ p', unfolded i(2)]
  have lock': "lock_inv req t0 s' (ps[i := p'])"
    using lock upd [of critical] by (auto simp: lock_inv_def s' p')
  have others: "ps ! j = Start \<or> ps ! j = Done concurrent_request"
    if j: "j < length ps" "j \<noteq> i" for j
  proof -
    from pend j(1) have "pending_pc (ps ! j)" by (simp add: pending_def cnt_zero_iff)
    moreover have "\<not> critical (ps ! j)"
      using cnt_le_one_unique [of critical ps i j] lock i j by (auto simp: lock_inv_def)
    ultimately show ?thesis by (auto simp: pending_pc_def)
  qed
  have "\<not> won row req p" if "p \<in> set ps" for p
  proof -
    from that obtain j where j: "j < length ps" "p = ps ! j" by (auto simp: in_set_conv_nth)
    with others [of j] i outcomes_distinct(2) [of row req] show ?thesis
      by (cases "j = i") (auto simp: won_def)
  qed
  then have "cnt (won row req) ps = 0" by (simp add: cnt_zero_iff)
  with upd [of "won row req"] have won1: "cnt (won row req) (ps[i := p']) = 1"
    by (simp add: won_def p')
  have "settled_pc row req p" if "p \<in> set (ps[i := p'])" for p
  proof -
    from that obtain j where j: "j < length ps" "p = (ps[i := p']) ! j"
      by (auto simp: in_set_conv_nth)
    with others [of j] show ?thesis
      by (cases "j = i") (auto simp: settled_pc_def p')
  qed
  then have "cnt (\<lambda>p. \<not> settled_pc row req p) (ps[i := p']) = 0"
    by (simp add: cnt_zero_iff)
  with won1 have "settled s0 req row s' (ps[i := p'])"
    by (auto simp: settled_def s')
  with lock' show ?thesis by simp
qed

lemma step_Finishing:
  assumes lock: "lock_inv req t0 s ps"
    and phase: "pending s0 s ps \<or> settled s0 req row s ps"
    and i: "i < length ps" "ps ! i = Finishing out"
    and st: "proc_step schema req now s (Finishing out) = Some (s', p')"
  shows "lock_inv req t0 s' (ps[i := p']) \<and> settled s0 req row s' (ps[i := p'])"
proof -
  have "\<not> pending s0 s ps"
  proof
    assume "pending s0 s ps"
    then have "\<forall>p \<in> set ps. pending_pc p" by (simp add: pending_def cnt_zero_iff)
    with i have "pending_pc (Finishing out)" by (metis nth_mem)
    then show False by (simp add: pending_pc_def)
  qed
  with phase have sett: "settled s0 req row s ps" by simp
  from st have s': "s' = s\<lparr>redis := (redis s)(lockKey (userId req) (actionId req) := None)\<rparr>"
    and p': "p' = Done out"
    by (simp_all add: releaseLock_def redis_del_def)
  note upd = cnt_update [OF i(1), of _ p', unfolded i(2)]
  from sett have "\<forall>p \<in> set ps. settled_pc row req p" by (simp add: settled_def cnt_zero_iff)
  with i have "settled_pc row req (Finishing out)" by (metis nth_mem)
  then have out: "out = accepted row req \<or> out = duplicate_action"
    by (auto simp: settled_pc_def)
  have "lock_inv req t0 s' (ps[i := p'])"
    using lock upd [of critical] by (auto simp: lock_inv_def s' p')
  moreover have "settled s0 req row s' (ps[i := p'])"
    using sett out upd [of "won row req"] upd [of "\<lambda>p. \<not> settled_pc row req p"]
    by (auto simp: settled_def settled_pc_def won_def s' p')
  ultimately show ?thesis by simp
qed


lemma reachable_inv:
  assumes rdy: "ready s0 req row"
    and reach: "reachable schema req t0 s0 N s ps"
  shows "length ps = N \<and> lock_inv req t0 s ps \<and> (pending s0 s ps \<or> settled s0 req row s ps)"
  using reach
proof (induction rule: reachable.induct)
  case start
  with start_inv [OF rdy] show ?case by simp
next
  case (step s ps i now s' p')
  then have len: "length ps = N" and lock: "lock_inv req t0 s ps"
    and phase: "pending s0 s ps \<or> settled s0 req row s ps"
    by simp_all
  note i = \<open>i < length ps\<close>
  note st = \<open>proc_step schema req now s (ps ! i) = Some (s', p')\<close>
  have "lock_inv req t0 s' (ps[i := p']) \<and> (pending s0 s' (ps[i := p']) \<or> settled s0 req row s' (ps[i := p']))"
  proof (cases "ps ! i")
    case Start
    from st have "proc_step schema req now s Start = Some (s', p')" by (simp add: Start)
    with lock phase i Start \<open>t0 \<le> now\<close> \<open>now < t0 + 30\<close> show ?thesis
      by (rule step_Start)
  next
    case Locked
    from st have "proc_step schema req now s Locked = Some (s', p')" by (simp only: Locked)
    with rdy lock phase i Locked show ?thesis
      by (rule step_Locked)
  next
    case Checked
    from st have "proc_step schema req now s Checked = Some (s', p')" by (simp only: Checked)
    with rdy lock phase i Checked
    have "lock_inv req t0 s' (ps[i := p']) \<and> settled s0 req row s' (ps[i := p'])"
      by (rule step_Checked)
    then show ?thesis by simp
  next
    case (Finishing out)
    from st have "proc_step schema req now s (Finishing out) = Some (s', p')"
      by (simp only: Finishing)
    with lock phase i Finishing
    have "lock_inv req t0 s' (ps[i := p']) \<and> settled s0 req row s' (ps[i := p'])"
      by (rule step_Finishing)
    then show ?thesis by simp
  next
    case (Done out)
    with st show ?thesis by simp
  qed
  with len show ?case by simp
qed

lemma is_Done_iff: "(case p of Done out \<Rightarrow> True | _ \<Rightarrow> False) \<longleftrightarrow> (\<exists>out. p = Done out)"
  by (cases p) simp_all

lemma all_done_iff: "all_done ps \<longleftrightarrow> (\<forall>p \<in> set ps. \<exists>out. p = Done out)"
  by (simp add: all_done_def list_all_iff is_Done_iff)

lemma proc_step_defined: "\<not> (\<exists>out. p = Done out) \<Longrightarrow> \<exists>s' p'. proc_step schema req now s p = Some (s', p')"
  by (cases p) (auto split: prod.splits bool.splits)

lemma proc_step_decreases:
  "proc_step schema req now s p = Some (s', p') \<Longrightarrow> steps_left p' < steps_left p"
  by (cases p) (auto split: prod.splits bool.splits if_splits)

lemma steps_left_update:
  assumes "i < length ps" "steps_left p' < steps_left (ps ! i)"
  shows "sum_list (map steps_left (ps[i := p'])) < sum_list (map steps_left ps)"
proof -
  have "ps = take i ps @ ps ! i # drop (Suc i) ps"
    using assms(1) by (rule id_take_nth_drop)
  then have "sum_list (map steps_left ps)
      = sum_list (map steps_left (take i ps)) + steps_left (ps ! i)
        + sum_list (map steps_left (drop (Suc i) ps))"
    by (metis add.assoc list.simps(9) map_append sum_list.Cons sum_list.append)
  moreover have "sum_list (map steps_left (ps[i := p']))
      = sum_list (map steps_left (take i ps)) + steps_left p'
        + sum_list (map steps_left (drop (Suc i) ps))"
    using assms(1) by (simp add: upd_conv_take_nth_drop)
  ultimately show ?thesis using assms(2) by simp
qed

lemma reachable_finishes:
  assumes "reachable schema req t0 s0 N s ps"
  shows "\<exists>s' ps'. reachable schema req t0 s0 N s' ps' \<and> all_done ps'"
  using assms
proof (induction "sum_list (map steps_left ps)" arbitrary: s ps rule: less_induct)
  case less
  show ?case
  proof (cases "all_done ps")
    case True
    with less.prems show ?thesis by blast
  next
    case False
    then obtain i where i: "i < length ps" "\<not> (\<exists>out. ps ! i = Done out)"
      by (auto simp: all_done_iff in_set_conv_nth)
    from proc_step_defined [OF i(2), of schema req t0 s]
    obtain s' p' where st: "proc_step schema req t0 s (ps ! i) = Some (s', p')" by blast
    from less.prems i(1) st have "reachable schema req t0 s0 N s' (ps[i := p'])"
      by (intro reachable.step [where now = t0]) simp_all
    moreover from steps_left_update [OF i(1) proc_step_decreases [OF st]]
    have "sum_list (map steps_left (ps[i := p'])) < sum_list (map steps_left ps)" .
    ultimately show ?thesis by (rule less.hyps [rotated])
  qed
qed

lemma finished_counts:
  assumes rdy: "ready s0 req row" and pos: "0 < N"
    and reach: "reachable schema req t0 s0 N s ps" and fin: "all_done ps"
  shows "length ps = N"
    and "length (filter (\<lambda>p. p = Done (accepted row req)) ps) = 1"
    and "\<forall>p \<in> set ps. p = Done (accepted row req) \<or> p = Done duplicate_action
            \<or> p = Done concurrent_request"
    and "\<exists>now. db s = committed_db (db s0) row req now"
proof -
  from reachable_inv [OF rdy reach]
  have len: "length ps = N" and lock: "lock_inv req t0 s ps"
    and phase: "pending s0 s ps \<or> settled s0 req row s ps"
    by simp_all
  from fin have finished: "\<And>p. p \<in> set ps \<Longrightarrow> \<exists>out. p = Done out" by (simp add: all_done_iff)
  from finished have nocrit: "cnt critical ps = 0" by (fastforce simp: cnt_zero_iff)
  have "\<not> pending s0 s ps"
  proof
    assume pend: "pending s0 s ps"
    from len pos have "ps ! 0 \<in> set ps" by simp
    with finished obtain out where out: "ps ! 0 = Done out" by blast
    from pend \<open>ps ! 0 \<in> set ps\<close> have "pending_pc (ps ! 0)" by (simp add: pending_def cnt_zero_iff)
    with out have "ps ! 0 = Done concurrent_request" by (simp add: pending_pc_def)
    with len pos have "0 < cnt (\<lambda>p. p = Done concurrent_request) ps"
      by (intro cnt_pos [of 0]) simp_all
    with pend nocrit show False by (simp add: pending_def)
  qed
  with phase have sett: "settled s0 req row s ps" by simp
  then show "\<exists>now. db s = committed_db (db s0) row req now" by (simp add: settled_def)
  from sett have ok: "\<And>p. p \<in> set ps \<Longrightarrow> settled_pc row req p" by (simp add: settled_def cnt_zero_iff)
  show "\<forall>p \<in> set ps. p = Done (accepted row req) \<or> p = Done duplicate_action
            \<or> p = Done concurrent_request"
  proof
    fix p assume "p \<in> set ps"
    with finished ok show "p = Done (accepted row req) \<or> p = Done duplicate_action
            \<or> p = Done concurrent_request"
      by (fastforce simp: settled_pc_def)
  qed
  have "filter (\<lambda>p. p = Done (accepted row req)) ps = filter (won row req) ps"
    by (rule filter_cong) (use finished in \<open>auto simp: won_def\<close>)
  with sett show "length (filter (\<lambda>p. p = Done (accepted row req)) ps) = 1"
    by (simp add: settled_def cnt_def)
  from len show "length ps = N" .
qed


lemma committed_db_facts:
  "map_option current_score (scores (committed_db d row req now) (userId req))
     = Some (current_score row + scoreIncrement req)"
  "select_existing d (actionId req) (userId req) = [] \<Longrightarrow>
     select_existing (committed_db d row req now) (actionId req) (userId req) = [inserted_row now req]"
  by (simp_all add: committed_db_def updated_row_def select_existing_def inserted_row_def)

text \<open>
  Within the lifetime of the lock.  \<open>N\<close> submissions of one request (same principal,
  same \<open>action_id\<close>, same increment) start together from a state in which the lock is
  free, the principal has a score row and the action is not yet committed, and run
  interleaved in any order within the 30 seconds of the lock.  Every interleaving can be
  run to the end, and at the end of every one exactly one submission has been answered
  with success and each of the other \<open>N - 1\<close> with \<open>DUPLICATE_ACTION\<close> or
  \<open>CONCURRENT_REQUEST\<close>; the score has grown by exactly one increment and exactly one
  action row has been added.  In the scenario a score of 100 and two submissions worth 50
  end at 150.
\<close>

theorem concurrent_submissions_commit_once:
  assumes rdy: "ready s0 req row" and pos: "0 < N"
  shows "(\<exists>s ps. reachable schema req t0 s0 N s ps \<and> all_done ps)
       \<and> (\<forall>s ps. reachable schema req t0 s0 N s ps \<and> all_done ps \<longrightarrow>
            length ps = N
          \<and> length (filter (\<lambda>p. p = Done (accepted row req)) ps) = 1
          \<and> length (filter (\<lambda>p. p = Done duplicate_action \<or> p = Done concurrent_request) ps) = N - 1
          \<and> map_option current_score (scores (db s) (userId req))
              = Some (current_score row + scoreIncrement req)
          \<and> length (select_existing (db s) (actionId req) (userId req)) = 1
          \<and> length (actions (db s)) = length (actions (db s0)) + 1)"
proof (intro conjI allI impI)
  show "\<exists>s ps. reachable schema req t0 s0 N s ps \<and> all_done ps"
    using reachable.start [of schema req t0 s0 N] by (rule reachable_finishes)
next
  fix s ps
  assume "reachable schema req t0 s0 N s ps \<and> all_done ps"
  then have reach: "reachable schema req t0 s0 N s ps" and fin: "all_done ps" by simp_all
  note facts = finished_counts [OF rdy pos reach fin]
  show "length ps = N" by (rule facts(1))
  show one: "length (filter (\<lambda>p. p = Done (accepted row req)) ps) = 1" by (rule facts(2))
  have "filter (\<lambda>p. p = Done duplicate_action \<or> p = Done concurrent_request) ps
      = filter (\<lambda>p. \<not> p = Done (accepted row req)) ps"
    using facts(3) outcomes_distinct(1,2) [of row req] by (intro filter_cong) auto
  with sum_length_filter_compl [of "\<lambda>p. p = Done (accepted row req)" ps] one facts(1)
  show "length (filter (\<lambda>p. p = Done duplicate_action \<or> p = Done concurrent_request) ps) = N - 1"
    by simp
  from facts(4) obtain now where db: "db s = committed_db (db s0) row req now" by blast
  show "map_option current_score (scores (db s) (userId req))
      = Some (current_score row + scoreIncrement req)"
    unfolding db by (rule committed_db_facts)
  show "length (select_existing (db s) (actionId req) (userId req)) = 1"
    unfolding db by (simp add: committed_db_facts(2) [OF ready_fresh [OF rdy]])
  show "length (actions (db s)) = length (actions (db s0)) + 1"
    unfolding db by (simp add: committed_db_def)
qed

lemma scenario_ready:
  "ready scenario_state scenario_request
     \<lparr>current_score = 100, total_actions = 1, last_action_at = Some 0\<rparr>"
  by (simp add: ready_def scenario_state_def scenario_request_def int4_def)

lemma scenario_accepted:
  "accepted \<lparr>current_score = 100, total_actions = 1, last_action_at = Some 0\<rparr> scenario_request
     = Respond 200 (SuccessBody 150 50 True)"
  by (simp add: accepted_def scenario_request_def)

theorem concurrent_submissions_commit_once_witness:
  "ready scenario_state scenario_request
     \<lparr>current_score = 100, total_actions = 1, last_action_at = Some 0\<rparr>
 \<and> (\<exists>s ps. reachable readme_schema scenario_request 5 scenario_state 2 s ps \<and> all_done ps
       \<and> length ps = 2
       \<and> length (filter (\<lambda>p. p = Done (Respond 200 (SuccessBody 150 50 True))) ps) = 1
       \<and> length (filter (\<lambda>p. p = Done duplicate_action \<or> p = Done concurrent_request) ps) = 1
       \<and> map_option current_score (scores (db s) ''A'') = Some 150)"
proof -
  have pos: "0 < (2::nat)" by simp
  note inst = concurrent_submissions_commit_once [OF scenario_ready pos, of readme_schema 5]
  from inst obtain s ps where run: "reachable readme_schema scenario_request 5 scenario_state 2 s ps"
      "all_done ps"
    by blast
  with inst have "length ps = 2
      \<and> length (filter (\<lambda>p. p = Done (accepted \<lparr>current_score = 100, total_actions = 1,
            last_action_at = Some 0\<rparr> scenario_request)) ps) = 1
      \<and> length (filter (\<lambda>p. p = Done duplicate_action \<or> p = Done concurrent_request) ps) = 2 - 1
      \<and> map_option current_score (scores (db s) (userId scenario_request))
          = Some (current_score \<lparr>current_score = 100, total_actions = 1, last_action_at = Some 0\<rparr>
                  + scoreIncrement scenario_request)"
    by blast
  then have "length ps = 2
      \<and> length (filter (\<lambda>p. p = Done (Respond 200 (SuccessBody 150 50 True))) ps) = 1
      \<and> length (filter (\<lambda>p. p = Done duplicate_action \<or> p = Done concurrent_request) ps) = 1
      \<and> map_option current_score (scores (db s) ''A'') = Some 150"
    by (simp add: scenario_accepted) (simp add: scenario_request_def)
  with run scenario_ready show ?thesis by blast
qed


text \<open>Both kinds of rejection occur: the other submission is turned away at the lock
  while the first holds it, or it finds the committed action after the first has finished.\<close>

lemma reachable_step_ex:
  assumes "\<exists>s. reachable schema req t0 s0 N s ps \<and> Q s"
    and "i < length ps" "t0 \<le> now" "now < t0 + 30"
    and "\<And>s. Q s \<Longrightarrow> \<exists>s'. proc_step schema req now s (ps ! i) = Some (s', p') \<and> Q' s'"
    and "ps' = ps[i := p']"
  shows "\<exists>s'. reachable schema req t0 s0 N s' ps' \<and> Q' s'"
proof -
  from assms(1) obtain s where s: "reachable schema req t0 s0 N s ps" "Q s" by blast
  from assms(5) [OF s(2)] obtain s' where s': "proc_step schema req now s (ps ! i) = Some (s', p')" "Q' s'"
    by blast
  from s(1) assms(2-4) s'(1) have "reachable schema req t0 s0 N s' (ps[i := p'])"
    by (rule reachable.step)
  with s'(2) assms(6) show ?thesis by blast
qed

lemma run_with_contention:
  assumes rdy: "ready s0 req row"
  shows "\<exists>s. reachable schema req t0 s0 2 s [Done (accepted row req), Done concurrent_request]"
proof -
  let ?k = "lockKey (userId req) (actionId req)"
  note lock_simps = acquireLock_def redis_set_ex_nx_def redis_get_def
  have "\<exists>s. reachable schema req t0 s0 2 s [Start, Start] \<and> (redis s ?k = None \<and> db s = db s0)"
    using reachable.start [of schema req t0 s0 2] rdy by (auto simp: numeral_2_eq_2 ready_def)
  then have "\<exists>s. reachable schema req t0 s0 2 s [Locked, Start]
      \<and> (redis s ?k = Some (1, Some (t0 + 30)) \<and> db s = db s0)"
    by (rule reachable_step_ex [where now = t0 and i = 0 and p' = Locked]) (auto simp: lock_simps)
  then have "\<exists>s. reachable schema req t0 s0 2 s [Locked, Done concurrent_request] \<and> db s = db s0"
    by (rule reachable_step_ex [where now = t0 and i = 1 and p' = "Done concurrent_request"])
      (auto simp: lock_simps)
  then have "\<exists>s. reachable schema req t0 s0 2 s [Checked, Done concurrent_request] \<and> db s = db s0"
    by (rule reachable_step_ex [where now = t0 and i = 0 and p' = Checked])
      (auto simp: ready_fresh [OF rdy])
  then have "\<exists>s. reachable schema req t0 s0 2 s
      [Finishing (accepted row req), Done concurrent_request] \<and> True"
    by (rule reachable_step_ex [where now = t0 and i = 0 and p' = "Finishing (accepted row req)"])
      (auto simp: ready_commit [OF rdy])
  then have "\<exists>s. reachable schema req t0 s0 2 s
      [Done (accepted row req), Done concurrent_request] \<and> True"
    by (rule reachable_step_ex [where now = t0 and i = 0 and p' = "Done (accepted row req)"]) auto
  then show ?thesis by simp
qed

lemma run_with_duplicate:
  assumes rdy: "ready s0 req row"
  shows "\<exists>s. reachable schema req t0 s0 2 s [Done (accepted row req), Done duplicate_action]"
proof -
  let ?k = "lockKey (userId req) (actionId req)"
  note lock_simps = acquireLock_def redis_set_ex_nx_def redis_get_def
  have "\<exists>s. reachable schema req t0 s0 2 s [Start, Start] \<and> (redis s ?k = None \<and> db s = db s0)"
    using reachable.start [of schema req t0 s0 2] rdy by (auto simp: numeral_2_eq_2 ready_def)
  then have "\<exists>s. reachable schema req t0 s0 2 s [Locked, Start] \<and> db s = db s0"
    by (rule reachable_step_ex [where now = t0 and i = 0 and p' = Locked]) (auto simp: lock_simps)
  then have "\<exists>s. reachable schema req t0 s0 2 s [Checked, Start] \<and> db s = db s0"
    by (rule reachable_step_ex [where now = t0 and i = 0 and p' = Checked])
      (auto simp: ready_fresh [OF rdy])
  then have "\<exists>s. reachable schema req t0 s0 2 s [Finishing (accepted row req), Start]
      \<and> db s = committed_db (db s0) row req t0"
    by (rule reachable_step_ex [where now = t0 and i = 0 and p' = "Finishing (accepted row req)"])
      (auto simp: ready_commit [OF rdy])
  then have "\<exists>s. reachable schema req t0 s0 2 s [Done (accepted row req), Start]
      \<and> (redis s ?k = None \<and> db s = committed_db (db s0) row req t0)"
    by (rule reachable_step_ex [where now = t0 and i = 0 and p' = "Done (accepted row req)"])
      (auto simp: releaseLock_def redis_del_def)
  then have "\<exists>s. reachable schema req t0 s0 2 s [Done (accepted row req), Locked]
      \<and> db s = committed_db (db s0) row req t0"
    by (rule reachable_step_ex [where now = t0 and i = 1 and p' = Locked]) (auto simp: lock_simps)
  then have "\<exists>s. reachable schema req t0 s0 2 s
      [Done (accepted row req), Finishing duplicate_action] \<and> True"
    by (rule reachable_step_ex [where now = t0 and i = 1 and p' = "Finishing duplicate_action"])
      (auto simp: committed_existing)
  then have "\<exists>s. reachable schema req t0 s0 2 s
      [Done (accepted row req), Done duplicate_action] \<and> True"
    by (rule reachable_step_ex [where now = t0 and i = 1 and p' = "Done duplicate_action"]) auto
  then show ?thesis by simp
qed


text \<open>
  With a uniqueness rule installed the action is committed exactly once at any timing:
  every finished interleaving has one success, the score has grown by one increment,
  and every other submission has been turned away.  Where the first rule is the
  constraint \<open>unique_action_id\<close>, it has been turned away with \<open>DUPLICATE_ACTION\<close> or
  \<open>CONCURRENT_REQUEST\<close>.
\<close>

lemma accepted_not_rejected: "\<not> rejected schema (accepted row req)"
  by (auto simp: rejected_def accepted_def duplicate_action_def concurrent_request_def
      thrown_duplicate_def)

lemma rejected_simps [simp]:
  "rejected schema duplicate_action" "rejected schema concurrent_request"
  by (simp_all add: rejected_def)

lemma commit_step_committed:
  assumes rdy: "ready s0 req row" and rule: "schema \<noteq> []"
  shows "\<exists>out. rejected schema out
     \<and> commit_step schema now' (committed_db (db s0) row req now) req
         = (out, committed_db (db s0) row req now)"
proof -
  let ?d = "committed_db (db s0) row req now"
  have "violates (actions ?d) (inserted_row now' req) c" for c
    by (cases c) (simp_all add: committed_db_def inserted_row_def)
  with rule have found: "find (violates (actions ?d) (inserted_row now' req)) schema = Some (hd schema)"
    by (cases schema) auto
  from rdy have "int4 (scoreIncrement req)" by (simp add: ready_def)
  with found have tx: "transaction schema now' ?d req
      = Inl (UniqueViolation (constraint_name (hd schema)))"
    by (simp add: transaction_def insert_action_def inserted_row_def)
  show ?thesis
  proof (cases "hd schema")
    case idx_actions_unique_per_user
    with tx have "commit_step schema now' ?d req = (thrown_duplicate, ?d)"
      by (simp add: commit_step_def thrown_duplicate_def)
    with idx_actions_unique_per_user show ?thesis by (auto simp: rejected_def)
  next
    case unique_action_id
    with tx have "commit_step schema now' ?d req = (duplicate_action, ?d)"
      by (simp add: commit_step_def)
    then show ?thesis by auto
  qed
qed

lemma pending_resolved: "pending_pc p \<Longrightarrow> resolved_pc schema row req p \<and> \<not> won row req p"
  using outcomes_distinct(2) [of row req]
  by (cases p) (auto simp: pending_pc_def won_def)

lemma untouched_step:
  assumes rdy: "ready s0 req row"
    and inv: "untouched s0 req s ps"
    and i: "i < length ps"
    and st: "proc_step schema req now s (ps ! i) = Some (s', p')"
  shows "untouched s0 req s' (ps[i := p']) \<or> committed_once schema s0 req row s' (ps[i := p'])"
proof -
  let ?k = "lockKey (userId req) (actionId req)"
  from inv have db: "db s = db s0" and all: "cnt (\<lambda>p. \<not> pending_pc p) ps = 0"
    and lock: "redis s ?k = None \<and> cnt (\<lambda>p. p = Done concurrent_request) ps = 0
      \<or> 0 < cnt holding ps"
    by (simp_all add: untouched_def)
  from all i have pend: "pending_pc (ps ! i)" by (simp add: cnt_zero_iff)
  note upd = cnt_update [OF i, of _ p']
  show ?thesis
  proof (cases "ps ! i")
    case Start
    show ?thesis
    proof (cases "redis_get (redis s) now ?k")
      case None
      with st Start have s': "db s' = db s" "redis s' ?k \<noteq> None" and p': "p' = Locked"
        by (auto simp: acquireLock_def redis_set_ex_nx_def)
      with db all upd [of "\<lambda>p. \<not> pending_pc p"] upd [of holding] Start
      have "untouched s0 req s' (ps[i := p'])"
        by (auto simp: untouched_def pending_pc_def holding_def)
      then show ?thesis ..
    next
      case (Some v)
      with st Start have s': "db s' = db s" "redis s' = redis s" and p': "p' = Done concurrent_request"
        by (auto simp: acquireLock_def redis_set_ex_nx_def)
      from Some have "redis s ?k \<noteq> None" by (auto simp: redis_get_def split: option.splits)
      with lock have "0 < cnt holding ps" by auto
      with s' p' db all upd [of "\<lambda>p. \<not> pending_pc p"] upd [of holding] Start
      have "untouched s0 req s' (ps[i := p'])"
        by (auto simp: untouched_def pending_pc_def holding_def)
      then show ?thesis ..
    qed
  next
    case Locked
    with st db ready_fresh [OF rdy] have s': "s' = s" and p': "p' = Checked" by auto
    from cnt_pos [OF i, of holding] Locked have "0 < cnt holding ps" by (simp add: holding_def)
    with s' p' db all upd [of "\<lambda>p. \<not> pending_pc p"] upd [of holding] Locked
    have "untouched s0 req s' (ps[i := p'])"
      by (auto simp: untouched_def pending_pc_def holding_def)
    then show ?thesis ..
  next
    case Checked
    with st db ready_commit [OF rdy, of schema now]
    have s': "db s' = committed_db (db s0) row req now" and p': "p' = Finishing (accepted row req)"
      by auto
    from all have each: "\<And>p. p \<in> set ps \<Longrightarrow> pending_pc p" by (simp add: cnt_zero_iff)
    then have "cnt (won row req) ps = 0" "cnt (\<lambda>p. \<not> resolved_pc schema row req p) ps = 0"
      using pending_resolved [of _ schema row req] by (auto simp: cnt_zero_iff)
    with upd [of "won row req"] upd [of "\<lambda>p. \<not> resolved_pc schema row req p"] Checked p'
    have "cnt (won row req) (ps[i := p']) = 1"
      "cnt (\<lambda>p. \<not> resolved_pc schema row req p) (ps[i := p']) = 0"
      by (auto simp: won_def)
    with s' have "committed_once schema s0 req row s' (ps[i := p'])"
      by (auto simp: committed_once_def)
    then show ?thesis ..
  next
    case (Finishing out)
    with pend show ?thesis by (simp add: pending_pc_def)
  next
    case (Done out)
    with st show ?thesis by simp
  qed
qed

lemma committed_once_step:
  assumes rdy: "ready s0 req row" and rule: "schema \<noteq> []"
    and inv: "committed_once schema s0 req row s ps"
    and i: "i < length ps"
    and st: "proc_step schema req now s (ps ! i) = Some (s', p')"
  shows "committed_once schema s0 req row s' (ps[i := p'])"
proof -
  from inv obtain t where db: "db s = committed_db (db s0) row req t"
    and one: "cnt (won row req) ps = 1"
    and all: "cnt (\<lambda>p. \<not> resolved_pc schema row req p) ps = 0"
    by (auto simp: committed_once_def)
  from all i have res: "resolved_pc schema row req (ps ! i)" by (simp add: cnt_zero_iff)
  note upd = cnt_update [OF i, of _ p']
  have goal: "committed_once schema s0 req row s' (ps[i := p'])"
    if "db s' = db s" "resolved_pc schema row req p'" "won row req p' = won row req (ps ! i)"
    using that db one all upd [of "won row req"] upd [of "\<lambda>p. \<not> resolved_pc schema row req p"] res
    by (auto simp: committed_once_def)
  show ?thesis
  proof (cases "ps ! i")
    case Start
    with st have "db s' = db s" "p' = Locked \<or> p' = Done concurrent_request"
      by (auto split: prod.splits bool.splits)
    with Start outcomes_distinct(2) [of row req] show ?thesis
      by (intro goal) (auto simp: won_def)
  next
    case Locked
    with st db committed_existing [of "db s0" row req t]
    have "s' = s" "p' = Finishing duplicate_action" by auto
    with Locked outcomes_distinct(1) [of row req] show ?thesis
      by (intro goal) (auto simp: won_def)
  next
    case Checked
    from commit_step_committed [OF rdy rule, of now t] obtain out where out: "rejected schema out"
      "commit_step schema now (committed_db (db s0) row req t) req
         = (out, committed_db (db s0) row req t)"
      by blast
    with st Checked db have "db s' = db s" "p' = Finishing out" by auto
    with Checked out(1) accepted_not_rejected [of schema row req] show ?thesis
      by (intro goal) (auto simp: won_def)
  next
    case (Finishing out)
    with st have "db s' = db s" "p' = Done out" by auto
    with Finishing res show ?thesis
      by (intro goal) (auto simp: won_def)
  next
    case (Done out)
    with st show ?thesis by simp
  qed
qed

lemma interleaved_phase:
  assumes rdy: "ready s0 req row" and rule: "schema \<noteq> []"
    and run: "interleaved schema s0 (replicate N req) s ps"
  shows "length ps = N
    \<and> (untouched s0 req s ps \<or> committed_once schema s0 req row s ps)"
  using run
proof (induction rule: interleaved.induct)
  case init
  from rdy show ?case
    by (simp add: untouched_def ready_def cnt_replicate pending_pc_def)
next
  case (advance s ps i now s' p')
  then have len: "length ps = N"
    and phase: "untouched s0 req s ps \<or> committed_once schema s0 req row s ps"
    by simp_all
  from advance.hyps(2,3) len
  have st: "proc_step schema req now s (ps ! i) = Some (s', p')" by simp
  from phase show ?case
  proof
    assume "untouched s0 req s ps"
    with rdy have "untouched s0 req s' (ps[i := p']) \<or> committed_once schema s0 req row s' (ps[i := p'])"
      using advance.hyps(2) st by (rule untouched_step)
    with len show ?thesis by simp
  next
    assume "committed_once schema s0 req row s ps"
    with rdy rule have "committed_once schema s0 req row s' (ps[i := p'])"
      using advance.hyps(2) st by (rule committed_once_step)
    with len show ?thesis by simp
  qed
qed

lemma interleaved_commit_once:
  assumes rdy: "ready s0 req row" and rule: "schema \<noteq> []" and pos: "0 < N"
    and run: "interleaved schema s0 (replicate N req) s ps" and fin: "all_done ps"
  shows "length ps = N"
    and "length (filter (\<lambda>p. p = Done (accepted row req)) ps) = 1"
    and "\<forall>p \<in> set ps. p = Done (accepted row req) \<or> (\<exists>out. rejected schema out \<and> p = Done out)"
    and "map_option current_score (scores (db s) (userId req))
           = Some (current_score row + scoreIncrement req)"
    and "length (actions (db s)) = length (actions (db s0)) + 1"
proof -
  from interleaved_phase [OF rdy rule run]
  have len: "length ps = N"
    and phase: "untouched s0 req s ps \<or> committed_once schema s0 req row s ps"
    by simp_all
  from fin have finished: "\<And>p. p \<in> set ps \<Longrightarrow> \<exists>out. p = Done out" by (simp add: all_done_iff)
  have "\<not> untouched s0 req s ps"
  proof
    assume u: "untouched s0 req s ps"
    from len pos obtain p where p: "p \<in> set ps" by (cases ps) auto
    with u have "pending_pc p" by (simp add: untouched_def cnt_zero_iff)
    with finished [OF p] have "p = Done concurrent_request" by (auto simp: pending_pc_def)
    with p have "cnt (\<lambda>p. p = Done concurrent_request) ps \<noteq> 0" by (auto simp: cnt_zero_iff)
    with u have "0 < cnt holding ps" by (auto simp: untouched_def)
    then obtain q where "q \<in> set ps" "holding q"
      using cnt_zero_iff [of holding ps] by auto
    with finished [of q] show False by (auto simp: holding_def)
  qed
  with phase have once: "committed_once schema s0 req row s ps" by simp
  then obtain t where db: "db s = committed_db (db s0) row req t"
    and one: "cnt (won row req) ps = 1"
    and all: "\<And>p. p \<in> set ps \<Longrightarrow> resolved_pc schema row req p"
    by (auto simp: committed_once_def cnt_zero_iff)
  show "length ps = N" by (rule len)
  have "filter (\<lambda>p. p = Done (accepted row req)) ps = filter (won row req) ps"
    by (rule filter_cong) (use finished in \<open>auto simp: won_def\<close>)
  with one show "length (filter (\<lambda>p. p = Done (accepted row req)) ps) = 1"
    by (simp add: cnt_def)
  show "\<forall>p \<in> set ps. p = Done (accepted row req) \<or> (\<exists>out. rejected schema out \<and> p = Done out)"
  proof
    fix p assume p: "p \<in> set ps"
    with finished obtain out where "p = Done out" by blast
    with all [OF p] show "p = Done (accepted row req) \<or> (\<exists>out. rejected schema out \<and> p = Done out)"
      by auto
  qed
  show "map_option current_score (scores (db s) (userId req))
      = Some (current_score row + scoreIncrement req)"
    unfolding db by (rule committed_db_facts)
  show "length (actions (db s)) = length (actions (db s0)) + 1"
    unfolding db by (simp add: committed_db_def)
qed

lemma interleaved_rejections:
  assumes rdy: "ready s0 req row" and rule: "schema \<noteq> []" "hd schema = unique_action_id"
    and pos: "0 < N"
    and run: "interleaved schema s0 (replicate N req) s ps" and fin: "all_done ps"
  shows "length (filter (\<lambda>p. p = Done duplicate_action \<or> p = Done concurrent_request) ps) = N - 1"
proof -
  note facts = interleaved_commit_once [OF rdy rule(1) pos run fin]
  from rule(2) have "rejected schema out \<longleftrightarrow> out = duplicate_action \<or> out = concurrent_request"
    for out by (simp add: rejected_def)
  with facts(3) have "filter (\<lambda>p. p = Done duplicate_action \<or> p = Done concurrent_request) ps
      = filter (\<lambda>p. \<not> p = Done (accepted row req)) ps"
    using outcomes_distinct(1,2) [of row req] by (intro filter_cong) auto
  with sum_length_filter_compl [of "\<lambda>p. p = Done (accepted row req)" ps] facts(1,2)
  show ?thesis by simp
qed

text \<open>A schedule that runs is one of the interleavings.\<close>

lemma run_schedule_interleaved:
  assumes "interleaved schema s0 reqs s ps"
    and "run_schedule schema reqs sched s ps = Some (s', ps')"
  shows "interleaved schema s0 reqs s' ps'"
  using assms
proof (induction sched arbitrary: s ps)
  case Nil
  then show ?case by simp
next
  case (Cons step sched)
  obtain i now where step: "step = (i, now)" by (cases step)
  from Cons.prems(2) obtain s1 p1 where i: "i < length ps"
    and one: "proc_step schema (reqs ! i) now s (ps ! i) = Some (s1, p1)"
    and rest: "run_schedule schema reqs sched s1 (ps[i := p1]) = Some (s', ps')"
    unfolding step by (auto split: if_splits option.splits)
  from Cons.prems(1) i one have "interleaved schema s0 reqs s1 (ps[i := p1])"
    by (rule interleaved.advance)
  then show ?case using rest by (rule Cons.IH)
qed

lemma lost_lock_interleaved:
  "\<exists>s. interleaved readme_schema scenario_state [scenario_request, scenario_request] s
         [Done (Respond 200 (SuccessBody 150 50 True)), Done thrown_duplicate]"
proof -
  have "final_outcomes (run_schedule readme_schema [scenario_request, scenario_request] lost_lock
       scenario_state [Start, Start])
     = Some [Done (Respond 200 (SuccessBody 150 50 True)), Done thrown_duplicate]"
    by code_simp
  then obtain s where "run_schedule readme_schema [scenario_request, scenario_request] lost_lock
      scenario_state [Start, Start]
     = Some (s, [Done (Respond 200 (SuccessBody 150 50 True)), Done thrown_duplicate])"
    by (auto simp: final_outcomes_def)
  moreover have "interleaved readme_schema scenario_state [scenario_request, scenario_request]
      scenario_state [Start, Start]"
    using interleaved.init [of readme_schema scenario_state "[scenario_request, scenario_request]"]
    by simp
  ultimately show ?thesis by (blast intro: run_schedule_interleaved)
qed

text \<open>
  Once the lock has expired under its holder, the store's uniqueness rule is what stops
  the second commit.  Where that rule is the constraint \<open>unique_action_id\<close> alone, the
  second submission is answered \<open>DUPLICATE_ACTION\<close>; with no rule at all it would be
  committed too.
\<close>

lemma lost_lock_under_global_constraint:
  "final_outcomes (run_schedule [unique_action_id] [scenario_request, scenario_request] lost_lock
       scenario_state [Start, Start])
     = Some [Done (Respond 200 (SuccessBody 150 50 True)), Done duplicate_action]"
  by code_simp

lemma lost_lock_without_constraint:
  "final_outcomes (run_schedule [] [scenario_request, scenario_request] lost_lock
       scenario_state [Start, Start])
     = Some [Done (Respond 200 (SuccessBody 150 50 True)),
             Done (Respond 200 (SuccessBody 200 50 True))]"
  by code_simp

text \<open>
  Claim C2.  Of \<open>N\<close> simultaneous submissions of one action exactly one is to succeed,
  the others are to be rejected with \<open>DUPLICATE_ACTION\<close> or \<open>CONCURRENT_REQUEST\<close>, and
  the score is to grow by one increment.  In the run \<open>lost_lock\<close> of two submissions
  the score does grow once, from 100 to 150, but the second submission gets neither
  rejection: its \<open>INSERT\<close> violates the index \<open>idx_actions_unique_per_user\<close>, the
  handler's \<open>catch\<close> knows only the name \<open>unique_action_id\<close>, and the error is thrown
  on.  This is so with the index alone and with the README's block run as written.
\<close>

theorem lost_lock_duplicate_is_thrown:
  "final_outcomes (run_schedule readme_schema [scenario_request, scenario_request] lost_lock
       scenario_state [Start, Start])
     = Some [Done (Respond 200 (SuccessBody 150 50 True)),
             Done (Throw (UniqueViolation ''idx_actions_unique_per_user''))]
 \<and> final_score ''A'' (run_schedule readme_schema [scenario_request, scenario_request] lost_lock
       scenario_state [Start, Start]) = Some 150
 \<and> final_outcomes (run_schedule [idx_actions_unique_per_user]
       [scenario_request, scenario_request] lost_lock scenario_state [Start, Start])
     = Some [Done (Respond 200 (SuccessBody 150 50 True)),
             Done (Throw (UniqueViolation ''idx_actions_unique_per_user''))]
 \<and> final_score ''A'' (run_schedule [idx_actions_unique_per_user]
       [scenario_request, scenario_request] lost_lock scenario_state [Start, Start]) = Some 150"
proof (intro conjI)
  show "final_outcomes (run_schedule readme_schema [scenario_request, scenario_request] lost_lock
       scenario_state [Start, Start])
     = Some [Done (Respond 200 (SuccessBody 150 50 True)),
             Done (Throw (UniqueViolation ''idx_actions_unique_per_user''))]"
    by code_simp
  show "final_score ''A'' (run_schedule readme_schema [scenario_request, scenario_request] lost_lock
       scenario_state [Start, Start]) = Some 150"
    by code_simp
  show "final_outcomes (run_schedule [idx_actions_unique_per_user]
       [scenario_request, scenario_request] lost_lock scenario_state [Start, Start])
     = Some [Done (Respond 200 (SuccessBody 150 50 True)),
             Done (Throw (UniqueViolation ''idx_actions_unique_per_user''))]"
    by code_simp
  show "final_score ''A'' (run_schedule [idx_actions_unique_per_user]
       [scenario_request, scenario_request] lost_lock scenario_state [Start, Start]) = Some 150"
    by code_simp
qed


subsection \<open>The leaderboard snapshot\<close>

text \<open>
  The README gives the \<open>scores\<close> table with its index on \<open>current_score DESC\<close> and the
  route that returns the top scores, but no query and no rule for equal scores.  The
  leaderboard below follows the spec's cache: it re-reads all aggregates, orders them by
  score, descending, with ties broken by ascending \<open>principal_id\<close>, and keeps the first
  \<open>K\<close>.  An aggregate is a pair of the principal and its score.
\<close>

text \<open>Modelled from the spec: the order of the snapshot, which the README does not give
  (higher score first, equal scores by ascending \<open>principal_id\<close>).\<close>

definition ranks_before :: "'p::linorder \<times> int \<Rightarrow> 'p \<times> int \<Rightarrow> bool" where
  "ranks_before a b \<longleftrightarrow> snd b < snd a \<or> (snd a = snd b \<and> fst a < fst b)"

text \<open>Modelled from the spec: the sort key of that order, the negated score and then the
  principal, compared lexicographically.\<close>

definition rank_key :: "'p \<times> int \<Rightarrow> int \<times> 'p" where
  "rank_key a = (- snd a, fst a)"

text \<open>Modelled from the spec: the recompute's read of all aggregates in that order; the
  README has no such query.\<close>

definition ranked :: "('p::linorder \<times> int) list \<Rightarrow> ('p \<times> int) list" where
  "ranked aggregates = sort_key rank_key aggregates"

text \<open>Modelled from the spec: the truncation to the first \<open>K\<close> aggregates.\<close>

definition top_k :: "nat \<Rightarrow> ('p::linorder \<times> int) list \<Rightarrow> ('p \<times> int) list" where
  "top_k K aggregates = take K (ranked aggregates)"

text \<open>Modelled from the spec: the snapshot, whose entries are the principal, its score and
  its rank, counted from 1; the README has no code that builds it.\<close>

definition leaderboard :: "nat \<Rightarrow> ('p::linorder \<times> int) list \<Rightarrow> ('p \<times> int \<times> nat) list" where
  "leaderboard K aggregates =
     map (\<lambda>(i, (p, s)). (p, s, i)) (enumerate 1 (top_k K aggregates))"

lemma inj_rank_key: "inj rank_key"
  by (auto simp: inj_on_def rank_key_def prod_eq_iff)

lemma inj_on_rank_key: "inj_on rank_key A"
  using inj_rank_key by (rule inj_on_subset) simp

lemma rank_key_less: "rank_key a < rank_key b \<longleftrightarrow> ranks_before a b"
  by (auto simp: rank_key_def ranks_before_def)

lemma sorted_ranked: "sorted (map rank_key (ranked aggregates))"
  unfolding ranked_def by (rule sorted_sort_key)

lemma set_ranked: "set (ranked aggregates) = set aggregates"
  by (simp add: ranked_def)

lemma distinct_ranked: "distinct (ranked aggregates) = distinct aggregates"
  by (simp add: ranked_def)

lemma ranked_strict:
  assumes "distinct aggregates"
  shows "sorted_wrt ranks_before (ranked aggregates)"
proof -
  from assms have "distinct (map rank_key (ranked aggregates))"
    by (simp add: distinct_map distinct_ranked inj_on_rank_key)
  with sorted_ranked have "sorted_wrt (<) (map rank_key (ranked aggregates))"
    by (simp add: strict_sorted_iff)
  then show ?thesis by (simp add: sorted_wrt_map rank_key_less)
qed

lemma ranked_unique:
  assumes "distinct stored" "distinct aggregates" "set stored = set aggregates"
  shows "ranked stored = ranked aggregates"
proof -
  have "map rank_key (ranked stored) = map rank_key (ranked aggregates)"
  proof (rule sorted_distinct_set_unique)
    show "sorted (map rank_key (ranked stored))" "sorted (map rank_key (ranked aggregates))"
      by (rule sorted_ranked)+
    show "distinct (map rank_key (ranked stored))"
      using assms(1) by (simp add: distinct_map distinct_ranked inj_on_rank_key)
    show "distinct (map rank_key (ranked aggregates))"
      using assms(2) by (simp add: distinct_map distinct_ranked inj_on_rank_key)
    show "set (map rank_key (ranked stored)) = set (map rank_key (ranked aggregates))"
      using assms(3) by (simp add: set_ranked)
  qed
  then show ?thesis by (simp add: inj_map_eq_map [OF inj_rank_key])
qed

lemma top_cut:
  assumes "distinct aggregates"
  shows "\<forall>a \<in> set aggregates - set (top_k K aggregates). \<forall>b \<in> set (top_k K aggregates). ranks_before b a"
proof (intro ballI)
  fix a b
  assume a: "a \<in> set aggregates - set (top_k K aggregates)" and b: "b \<in> set (top_k K aggregates)"
  have "sorted_wrt ranks_before (take K (ranked aggregates) @ drop K (ranked aggregates))"
    using ranked_strict [OF assms] by simp
  then have cut: "\<forall>x \<in> set (take K (ranked aggregates)). \<forall>y \<in> set (drop K (ranked aggregates)).
      ranks_before x y"
    unfolding sorted_wrt_append by blast
  have "set (ranked aggregates) = set (take K (ranked aggregates)) \<union> set (drop K (ranked aggregates))"
    by (metis append_take_drop_id set_append)
  with a have "a \<in> set (drop K (ranked aggregates))"
    by (auto simp: top_k_def set_ranked)
  with cut b show "ranks_before b a" by (simp add: top_k_def)
qed

lemma leaderboard_entries:
  "map (\<lambda>(p, s, r). (p, s)) (leaderboard K aggregates) = top_k K aggregates"
  "map (\<lambda>(p, s, r). r) (leaderboard K aggregates) = [1 ..< Suc (length (top_k K aggregates))]"
proof -
  have "(\<lambda>(p, s, r). (p, s)) \<circ> (\<lambda>(i, (p, s)). (p, s, i)) = (snd :: nat \<times> 'a \<times> int \<Rightarrow> 'a \<times> int)"
    by auto
  then have "map (\<lambda>(p, s, r). (p, s)) (leaderboard K aggregates)
      = map snd (enumerate 1 (top_k K aggregates))"
    by (simp add: leaderboard_def)
  then show "map (\<lambda>(p, s, r). (p, s)) (leaderboard K aggregates) = top_k K aggregates"
    by simp
  have "(\<lambda>(p, s, r). r) \<circ> (\<lambda>(i, (p, s)). (p, s, i)) = (fst :: nat \<times> 'a \<times> int \<Rightarrow> nat)"
    by auto
  then have "map (\<lambda>(p, s, r). r) (leaderboard K aggregates)
      = map fst (enumerate 1 (top_k K aggregates))"
    by (simp add: leaderboard_def)
  then show "map (\<lambda>(p, s, r). r) (leaderboard K aggregates) = [1 ..< Suc (length (top_k K aggregates))]"
    by simp
qed

text \<open>
  Claim C7.  With one aggregate per principal, the snapshot is the first \<open>K\<close> aggregates
  in the order "higher score first, equal scores by ascending \<open>principal_id\<close>": it has
  \<open>min K n\<close> entries with ranks \<open>1, 2, ...\<close>, each entry ranks strictly before the
  next, and every aggregate left out ranks after every entry.  The snapshot depends only
  on the set of aggregates, not on the order in which they are stored or read, so equal
  scores appear in the same relative order in every snapshot and repeated queries over an
  unchanged ledger agree.
\<close>

theorem leaderboard_order_is_determined:
  assumes one_each: "distinct (map fst aggregates)"
  shows "length (leaderboard K aggregates) = min K (length aggregates)
       \<and> map (\<lambda>(p, s, r). (p, s)) (leaderboard K aggregates) = top_k K aggregates
       \<and> map (\<lambda>(p, s, r). r) (leaderboard K aggregates) = [1 ..< Suc (length (top_k K aggregates))]
       \<and> set (top_k K aggregates) \<subseteq> set aggregates
       \<and> sorted_wrt ranks_before (top_k K aggregates)
       \<and> (\<forall>a \<in> set aggregates - set (top_k K aggregates).
             \<forall>b \<in> set (top_k K aggregates). ranks_before b a)
       \<and> (\<forall>stored. distinct stored \<and> set stored = set aggregates \<longrightarrow>
             leaderboard K stored = leaderboard K aggregates)"
proof -
  from one_each have dist: "distinct aggregates" by (simp add: distinct_map)
  have "length (leaderboard K aggregates) = min K (length aggregates)"
    by (simp add: leaderboard_def top_k_def ranked_def min.commute)
  moreover have "set (top_k K aggregates) \<subseteq> set aggregates"
    using set_take_subset [of K "ranked aggregates"] by (simp add: top_k_def set_ranked)
  moreover have "sorted_wrt ranks_before (top_k K aggregates)"
    using ranked_strict [OF dist] by (simp add: top_k_def)
  moreover have "\<forall>stored. distinct stored \<and> set stored = set aggregates \<longrightarrow>
      leaderboard K stored = leaderboard K aggregates"
    using ranked_unique [OF _ dist] by (simp add: leaderboard_def top_k_def)
  ultimately show ?thesis
    using top_cut [OF dist, of K] leaderboard_entries [of K aggregates] by simp
qed



lemma example_ranks: "ranks_before (''alice'', 150) (''bob'', 150)" "ranks_before (''bob'', 150) (''carol'', 90)"
  by code_simp+

lemma example_board: "leaderboard 2 [(''bob'', 150), (''carol'', 90), (''alice'', 150 :: int)]
      = [(''alice'', 150, 1), (''bob'', 150, 2)]"
  by code_simp

theorem leaderboard_order_is_determined_witness:
  "distinct (map fst [(''bob'', 150), (''carol'', 90), (''alice'', 150 :: int)])
 \<and> leaderboard 2 [(''bob'', 150), (''carol'', 90), (''alice'', 150)]
      = [(''alice'', 150, 1), (''bob'', 150, 2)]
 \<and> sorted_wrt ranks_before (top_k 2 [(''bob'', 150), (''carol'', 90), (''alice'', 150)])
 \<and> leaderboard 2 [(''alice'', 150), (''bob'', 150), (''carol'', 90)]
      = leaderboard 2 [(''bob'', 150), (''carol'', 90), (''alice'', 150)]"
proof -
  let ?aggs = "[(''bob'', 150), (''carol'', 90), (''alice'', 150 :: int)]"
  let ?stored = "[(''alice'', 150), (''bob'', 150), (''carol'', 90 :: int)]"
  have one_each: "distinct (map fst ?aggs)" by simp
  note inst = leaderboard_order_is_determined [OF one_each, of 2]
  from inst have sorted: "sorted_wrt ranks_before (top_k 2 ?aggs)"
    by (elim conjE)
  have same: "distinct ?stored \<and> set ?stored = set ?aggs" by auto
  from inst have "distinct ?stored \<and> set ?stored = set ?aggs \<longrightarrow>
      leaderboard 2 ?stored = leaderboard 2 ?aggs"
    by blast
  with same have "leaderboard 2 ?stored = leaderboard 2 ?aggs"
    by (rule rev_mp)
  with sorted one_each example_board show ?thesis by (intro conjI)
qed



section \<open>Problem 5: the user service\<close>

subsection \<open>The middleware \<open>authenticateToken\<close>\<close>

text \<open>
  What a \<open>try\<close> block of the service can catch: the errors of \<open>jsonwebtoken\<close> (with
  its subclasses for expired and not yet valid tokens), the unique-constraint error of
  SQLite, and any other error.  Each carries its message.
\<close>

datatype thrown =
    JsonWebTokenError string
  | SqliteConstraintUnique string
  | OtherError string

record decoded =
  decoded_userId :: int
  decoded_email :: string

text \<open>
  \<open>authHeader.split(' ')\<close>: the pieces between single spaces; two spaces in a row give an
  empty piece, and a string without a space is its own single piece.
\<close>

fun split_space :: "string \<Rightarrow> string list" where
  "split_space [] = [[]]"
| "split_space (c # cs) =
     (if c = CHR '' '' then [] # split_space cs
      else (case split_space cs of
              [] \<Rightarrow> [[c]]
            | piece # pieces \<Rightarrow> (c # piece) # pieces))"

text \<open>
  \<open>authHeader && authHeader.split(' ')[1]\<close>, followed by the test \<open>!token\<close>: the result is
  \<open>None\<close> when the header is absent or empty, when it has no second piece, and when the
  second piece is the empty string.  The first piece, the scheme word, is not looked at.
\<close>

definition header_token :: "string option \<Rightarrow> string option" where
  "header_token authHeader =
     (case authHeader of
        None \<Rightarrow> None
      | Some h \<Rightarrow>
          (case split_space h of
             _ # token # _ \<Rightarrow> if token = [] then None else Some token
           | _ \<Rightarrow> None))"

datatype 'u auth_outcome =
    CallNext 'u
  | Status nat string

fun auth_catch :: "thrown \<Rightarrow> 'u auth_outcome" where
  "auth_catch (JsonWebTokenError msg) = Status 403 ''Invalid or expired token''"
| "auth_catch (SqliteConstraintUnique msg) = Status 500 ''Authentication error''"
| "auth_catch (OtherError msg) = Status 500 ''Authentication error''"

text \<open>
  \<open>jwt.verify(token, JWT_SECRET)\<close> and the repository's \<open>findOne\<close> by id are the two
  collaborators; each returns its value or throws.  \<open>CallNext user\<close> stands for
  \<open>req.user = user; next()\<close>.
\<close>

definition authenticateToken ::
  "(string \<Rightarrow> thrown + decoded) \<Rightarrow> (int \<Rightarrow> thrown + 'u option) \<Rightarrow> string option \<Rightarrow> 'u auth_outcome" where
  "authenticateToken verify findOne authHeader =
     (case header_token authHeader of
        None \<Rightarrow> Status 401 ''Access token is required''
      | Some token \<Rightarrow>
          (case verify token of
             Inl e \<Rightarrow> auth_catch e
           | Inr dec \<Rightarrow>
               (case findOne (decoded_userId dec) of
                  Inl e \<Rightarrow> auth_catch e
                | Inr None \<Rightarrow> Status 401 ''User not found''
                | Inr (Some user) \<Rightarrow> CallNext user)))"

text \<open>
  The user routes: \<open>router.use(authenticateToken)\<close> stands before every route, so a
  route's controller runs only through \<open>next\<close>.
\<close>

datatype 'r routed =
    Handled 'r
  | Refused nat string

definition user_routes ::
  "(string \<Rightarrow> thrown + decoded) \<Rightarrow> (int \<Rightarrow> thrown + 'u option) \<Rightarrow> ('u \<Rightarrow> 'r) \<Rightarrow> string option \<Rightarrow> 'r routed" where
  "user_routes verify findOne controller authHeader =
     (case authenticateToken verify findOne authHeader of
        CallNext user \<Rightarrow> Handled (controller user)
      | Status code msg \<Rightarrow> Refused code msg)"

text \<open>A token service that accepts the one token \<open>good\<close>, issued to user 7, calls the
  token \<open>old\<close> expired and every other token malformed; and a user table with the one
  user 7.\<close>

definition example_verify :: "string \<Rightarrow> thrown + decoded" where
  "example_verify token =
     (if token = ''good'' then Inr \<lparr>decoded_userId = 7, decoded_email = ''a@b.c''\<rparr>
      else if token = ''gone'' then Inr \<lparr>decoded_userId = 8, decoded_email = ''d@e.f''\<rparr>
      else if token = ''old'' then Inl (JsonWebTokenError ''jwt expired'')
      else Inl (JsonWebTokenError ''jwt malformed''))"

definition example_findOne :: "int \<Rightarrow> thrown + string option" where
  "example_findOne uid = (if uid = 7 then Inr (Some ''alice'') else Inr None)"



lemma authenticateToken_next_iff:
  "authenticateToken verify findOne h = CallNext u \<longleftrightarrow>
     (\<exists>token dec. header_token h = Some token \<and> verify token = Inr dec
        \<and> findOne (decoded_userId dec) = Inr (Some u))"
  by (auto simp: authenticateToken_def split: option.splits sum.splits elim: auth_catch.elims)

text \<open>
  Claim C10.  \<open>authenticateToken\<close> calls \<open>next\<close> exactly when the Authorization header
  carries a token, the token verifies, and the user it names exists.  In every other case
  it answers without calling \<open>next\<close>: 401 when the token is missing, 401 when the user
  is not found, 403 when verification fails with a \<open>JsonWebTokenError\<close> (invalid or
  expired token), and 500 when it fails with another error.  Behind
  \<open>router.use(authenticateToken)\<close> a controller therefore runs only for such a verified
  token of an existing user.
\<close>

theorem authenticateToken_guards_next:
  "(authenticateToken verify findOne h = CallNext u \<longleftrightarrow>
      (\<exists>token dec. header_token h = Some token \<and> verify token = Inr dec
         \<and> findOne (decoded_userId dec) = Inr (Some u)))
 \<and> (header_token h = None \<longrightarrow>
      authenticateToken verify findOne h = Status 401 ''Access token is required'')
 \<and> (\<forall>token dec. header_token h = Some token \<and> verify token = Inr dec
        \<and> findOne (decoded_userId dec) = Inr None \<longrightarrow>
      authenticateToken verify findOne h = Status 401 ''User not found'')
 \<and> (\<forall>token msg. header_token h = Some token \<and> verify token = Inl (JsonWebTokenError msg) \<longrightarrow>
      authenticateToken verify findOne h = Status 403 ''Invalid or expired token'')
 \<and> (\<forall>token msg. header_token h = Some token \<and> verify token = Inl (OtherError msg) \<longrightarrow>
      authenticateToken verify findOne h = Status 500 ''Authentication error'')
 \<and> ((\<forall>user. authenticateToken verify findOne h \<noteq> CallNext user) \<longrightarrow>
      (\<exists>code msg. authenticateToken verify findOne h = Status code msg
         \<and> user_routes verify findOne controller h = Refused code msg))
 \<and> (\<forall>r. user_routes verify findOne controller h = Handled r \<longrightarrow>
      (\<exists>token dec user. header_token h = Some token \<and> verify token = Inr dec
         \<and> findOne (decoded_userId dec) = Inr (Some user) \<and> r = controller user))"
proof (intro conjI allI impI)
  show "authenticateToken verify findOne h = CallNext u \<longleftrightarrow>
      (\<exists>token dec. header_token h = Some token \<and> verify token = Inr dec
         \<and> findOne (decoded_userId dec) = Inr (Some u))"
    by (rule authenticateToken_next_iff)
next
  assume "header_token h = None"
  then show "authenticateToken verify findOne h = Status 401 ''Access token is required''"
    by (simp add: authenticateToken_def)
next
  fix token dec
  assume "header_token h = Some token \<and> verify token = Inr dec
        \<and> findOne (decoded_userId dec) = Inr None"
  then show "authenticateToken verify findOne h = Status 401 ''User not found''"
    by (simp add: authenticateToken_def)
next
  fix token msg
  assume "header_token h = Some token \<and> verify token = Inl (JsonWebTokenError msg)"
  then show "authenticateToken verify findOne h = Status 403 ''Invalid or expired token''"
    by (simp add: authenticateToken_def)
next
  fix token msg
  assume "header_token h = Some token \<and> verify token = Inl (OtherError msg)"
  then show "authenticateToken verify findOne h = Status 500 ''Authentication error''"
    by (simp add: authenticateToken_def)
next
  assume "\<forall>user. authenticateToken verify findOne h \<noteq> CallNext user"
  then obtain code msg where "authenticateToken verify findOne h = Status code msg"
    by (cases "authenticateToken verify findOne h") auto
  then show "\<exists>code msg. authenticateToken verify findOne h = Status code msg
         \<and> user_routes verify findOne controller h = Refused code msg"
    by (simp add: user_routes_def)
next
  fix r
  assume "user_routes verify findOne controller h = Handled r"
  then obtain user where "authenticateToken verify findOne h = CallNext user" "r = controller user"
    by (auto simp: user_routes_def split: auth_outcome.splits)
  then show "\<exists>token dec user. header_token h = Some token \<and> verify token = Inr dec
         \<and> findOne (decoded_userId dec) = Inr (Some user) \<and> r = controller user"
    using authenticateToken_next_iff [of verify findOne h user] by blast
qed


lemma example_tokens:
  "header_token (Some ''Bearer good'') = Some ''good''"
  "header_token (Some ''Bearer gone'') = Some ''gone''"
  "header_token (Some ''Bearer old'') = Some ''old''"
  "header_token (Some ''Bearer'') = None"
  by (simp_all add: header_token_def)

theorem authenticateToken_guards_next_witness:
  "authenticateToken example_verify example_findOne (Some ''Bearer good'') = CallNext ''alice''
 \<and> user_routes example_verify example_findOne length (Some ''Bearer good'') = Handled 5
 \<and> authenticateToken example_verify example_findOne (Some ''Bearer'')
      = (Status 401 ''Access token is required'' :: string auth_outcome)
 \<and> authenticateToken example_verify example_findOne (Some ''Bearer gone'')
      = Status 401 ''User not found''
 \<and> authenticateToken example_verify example_findOne (Some ''Bearer old'')
      = Status 403 ''Invalid or expired token''
 \<and> user_routes example_verify example_findOne length (Some ''Bearer old'')
      = Refused 403 ''Invalid or expired token''"
proof -
  note inst = authenticateToken_guards_next [of example_verify example_findOne _ _ length]
  have good: "authenticateToken example_verify example_findOne (Some ''Bearer good'') = CallNext ''alice''"
    using inst [of "Some ''Bearer good''" "''alice''"]
    by (simp add: example_tokens example_verify_def example_findOne_def)
  have none: "authenticateToken example_verify example_findOne (Some ''Bearer'')
      = (Status 401 ''Access token is required'' :: string auth_outcome)"
    using inst [of "Some ''Bearer''"] by (simp add: example_tokens)
  have gone: "authenticateToken example_verify example_findOne (Some ''Bearer gone'')
      = Status 401 ''User not found''"
    using inst [of "Some ''Bearer gone''"]
    by (simp add: example_tokens example_verify_def example_findOne_def)
  have old: "authenticateToken example_verify example_findOne (Some ''Bearer old'')
      = Status 403 ''Invalid or expired token''"
    using inst [of "Some ''Bearer old''"]
    by (simp add: example_tokens example_verify_def)
  from good have "user_routes example_verify example_findOne length (Some ''Bearer good'') = Handled 5"
    by (simp add: user_routes_def)
  moreover from old inst [of "Some ''Bearer old''"]
  have "user_routes example_verify example_findOne length (Some ''Bearer old'')
      = Refused 403 ''Invalid or expired token''"
    by simp
  ultimately show ?thesis using good none gone old by simp
qed



subsection \<open>Requests, responses and the collaborators of the controllers\<close>

text \<open>
  Values that travel in request and response bodies.  An object is a list of properties;
  a property that is \<open>undefined\<close> is absent.  A number that is \<open>NaN\<close> is \<open>None\<close> and is
  written to a body as \<open>null\<close>.
\<close>

datatype json =
    JNull
  | JBool bool
  | JNum int
  | JStr string
  | JArr "json list"
  | JObj "(string \<times> json) list"

type_synonym obj = "(string \<times> json) list"

definition field :: "string \<Rightarrow> json \<Rightarrow> json option" where
  "field k j = (case j of JObj props \<Rightarrow> map_of props k | _ \<Rightarrow> None)"

definition num_json :: "int option \<Rightarrow> json" where
  "num_json n = (case n of None \<Rightarrow> JNull | Some i \<Rightarrow> JNum i)"

text \<open>\<open>{ ...a, ...b }\<close>: the properties of \<open>b\<close> win; spreading a value that is not an
  object adds nothing.\<close>

definition spread :: "json \<Rightarrow> obj" where
  "spread j = (case j of JObj props \<Rightarrow> props | _ \<Rightarrow> [])"

definition merge :: "obj \<Rightarrow> obj \<Rightarrow> obj" where
  "merge a b = filter (\<lambda>(k, v). k \<notin> set (map fst b)) a @ b"

text \<open>An object literal whose property values may be \<open>undefined\<close>.\<close>

definition literal :: "(string \<times> json option) list \<Rightarrow> obj" where
  "literal props = concat (map (\<lambda>(k, v). case v of None \<Rightarrow> [] | Some x \<Rightarrow> [(k, x)]) props)"

text \<open>\<open>!v\<close> for a value read from a body.\<close>

definition falsy :: "json option \<Rightarrow> bool" where
  "falsy v \<longleftrightarrow> v \<in> {None, Some JNull, Some (JBool False), Some (JNum 0), Some (JStr [])}"

text \<open>\<open>const { password: _, ...userResponse } = user\<close>: every property but \<open>password\<close>.\<close>

definition omit_password :: "obj \<Rightarrow> obj" where
  "omit_password user = filter (\<lambda>(k, v). k \<noteq> ''password'') user"

record http_request =
  req_body :: json
  req_params :: "(string \<times> string) list"
  req_query :: "(string \<times> string) list"
  req_user :: "obj option"

record response =
  res_status :: nat
  res_body :: json

datatype condition =
    Like string string
  | Equals string "int option"

record query =
  q_conditions :: "condition list"
  q_skip :: "int option"
  q_take :: "int option"

text \<open>
  What the controllers call and do not define: \<open>class-transformer\<close>, \<open>class-validator\<close>,
  \<open>parseInt\<close>, the TypeORM repository over a database \<open>'db\<close>, \<open>bcryptjs\<close> and
  \<open>jwt.sign\<close>.  A call returns its value or throws.  \<open>validate\<close> returns, for each
  validation error, the messages of its constraints.
\<close>

record 'db env =
  plainToClass :: "json \<Rightarrow> obj"
  validate :: "obj \<Rightarrow> thrown + string list list"
  parseInt :: "string option \<Rightarrow> int option"
  repo_create :: "obj \<Rightarrow> obj"
  repo_save :: "'db \<Rightarrow> obj \<Rightarrow> thrown + (obj \<times> 'db)"
  repo_findOne :: "'db \<Rightarrow> string \<Rightarrow> json option \<Rightarrow> thrown + obj option"
  repo_getManyAndCount :: "'db \<Rightarrow> query \<Rightarrow> thrown + (obj list \<times> int)"
  repo_update :: "'db \<Rightarrow> int option \<Rightarrow> json \<Rightarrow> thrown + 'db"
  bcrypt_hash :: "json option \<Rightarrow> nat \<Rightarrow> thrown + string"
  bcrypt_compare :: "json option \<Rightarrow> json option \<Rightarrow> thrown + bool"
  jwt_sign :: "json option \<Rightarrow> json option \<Rightarrow> string"

definition generateToken :: "'db env \<Rightarrow> json option \<Rightarrow> json option \<Rightarrow> string" where
  "generateToken env uid email = jwt_sign env uid email"

fun message_of :: "thrown \<Rightarrow> string" where
  "message_of (JsonWebTokenError msg) = msg"
| "message_of (SqliteConstraintUnique msg) = msg"
| "message_of (OtherError msg) = msg"

definition reply :: "nat \<Rightarrow> obj \<Rightarrow> response" where
  "reply code props = \<lparr>res_status = code, res_body = JObj props\<rparr>"

definition failure :: "nat \<Rightarrow> string \<Rightarrow> response" where
  "failure code msg = reply code [(''success'', JBool False), (''message'', JStr msg)]"

text \<open>The \<open>catch\<close> blocks: with and without the test for \<open>SQLITE_CONSTRAINT_UNIQUE\<close>.\<close>

definition server_error :: "string \<Rightarrow> thrown \<Rightarrow> response" where
  "server_error msg e =
     reply 500 [(''success'', JBool False), (''message'', JStr msg), (''error'', JStr (message_of e))]"

fun catch_unique :: "string \<Rightarrow> thrown \<Rightarrow> response" where
  "catch_unique msg (SqliteConstraintUnique m) = failure 400 ''Email already exists''"
| "catch_unique msg e = server_error msg e"

fun join :: "string \<Rightarrow> string list \<Rightarrow> string" where
  "join sep [] = []"
| "join sep [s] = s"
| "join sep (s # rest) = s @ sep @ join sep rest"

definition validation_failed :: "string list list \<Rightarrow> response" where
  "validation_failed errors =
     reply 400 [(''success'', JBool False), (''message'', JStr ''Validation failed''),
                (''errors'', JStr (join ''; '' (map (join '', '') errors)))]"

subsection \<open>\<open>userController\<close>\<close>

definition createUser :: "'db env \<Rightarrow> 'db \<Rightarrow> http_request \<Rightarrow> response \<times> 'db" where
  "createUser env d req =
     (let userData = plainToClass env (req_body req) in
      case validate env userData of
        Inl e \<Rightarrow> (catch_unique ''Failed to create user'' e, d)
      | Inr errors \<Rightarrow>
          if errors \<noteq> [] then (validation_failed errors, d)
          else (case repo_save env d (repo_create env userData) of
                  Inl e \<Rightarrow> (catch_unique ''Failed to create user'' e, d)
                | Inr (savedUser, d') \<Rightarrow>
                    (reply 201 [(''success'', JBool True),
                                (''message'', JStr ''User created successfully''),
                                (''data'', JObj (omit_password savedUser))], d')))"

definition truthy_param :: "http_request \<Rightarrow> string \<Rightarrow> string option" where
  "truthy_param req k =
     (case map_of (req_query req) k of
        None \<Rightarrow> None
      | Some s \<Rightarrow> if s = [] then None else Some s)"

definition like_filter :: "http_request \<Rightarrow> string \<Rightarrow> condition list" where
  "like_filter req k =
     (case truthy_param req k of
        None \<Rightarrow> []
      | Some s \<Rightarrow> [Like (''user.'' @ k) (''%'' @ s @ ''%'')])"

text \<open>\<open>Math.ceil(total / limitNum)\<close>; the quotient by zero or by \<open>NaN\<close> is not a finite
  number and is written as \<open>null\<close>.\<close>

definition totalPages :: "int \<Rightarrow> int option \<Rightarrow> int option" where
  "totalPages n limitNum =
     (case limitNum of
        None \<Rightarrow> None
      | Some l \<Rightarrow> if l = 0 then None else Some (- ((- n) div l)))"

definition getUsers :: "'db env \<Rightarrow> 'db \<Rightarrow> http_request \<Rightarrow> response \<times> 'db" where
  "getUsers env d req =
     (let pageNum = (case map_of (req_query req) ''page'' of
                       None \<Rightarrow> Some 1 | Some s \<Rightarrow> parseInt env (Some s));
          limitNum = (case map_of (req_query req) ''limit'' of
                        None \<Rightarrow> Some 10 | Some s \<Rightarrow> parseInt env (Some s));
          q = \<lparr>q_conditions =
                 like_filter req ''name'' @ like_filter req ''email'' @ like_filter req ''city''
                 @ (case truthy_param req ''age'' of
                      None \<Rightarrow> [] | Some s \<Rightarrow> [Equals ''user.age'' (parseInt env (Some s))]),
               q_skip = (case (pageNum, limitNum) of
                         (Some p, Some l) \<Rightarrow> Some ((p - 1) * l) | _ \<Rightarrow> None),
               q_take = limitNum\<rparr>
      in case repo_getManyAndCount env d q of
           Inl e \<Rightarrow> (server_error ''Failed to fetch users'' e, d)
         | Inr (users, n) \<Rightarrow>
             (reply 200 [(''success'', JBool True),
                         (''data'', JArr (map (\<lambda>user. JObj (omit_password user)) users)),
                         (''pagination'',
                            JObj [(''page'', num_json pageNum), (''limit'', num_json limitNum),
                                  (''total'', JNum n),
                                  (''totalPages'', num_json (totalPages n limitNum))])], d))"

definition param_id :: "'db env \<Rightarrow> http_request \<Rightarrow> int option" where
  "param_id env req = parseInt env (map_of (req_params req) ''id'')"

definition getUserById :: "'db env \<Rightarrow> 'db \<Rightarrow> http_request \<Rightarrow> response \<times> 'db" where
  "getUserById env d req =
     (case repo_findOne env d ''id'' (Some (num_json (param_id env req))) of
        Inl e \<Rightarrow> (server_error ''Failed to fetch user'' e, d)
      | Inr None \<Rightarrow> (failure 404 ''User not found'', d)
      | Inr (Some user) \<Rightarrow>
          (reply 200 [(''success'', JBool True), (''data'', JObj (omit_password user))], d))"

text \<open>In \<open>updateUser\<close> the user is read again after the update; destructuring the
  result \<open>null\<close> of that second read throws, which the \<open>catch\<close> answers with 500.\<close>

definition updateUser :: "'db env \<Rightarrow> 'db \<Rightarrow> http_request \<Rightarrow> response \<times> 'db" where
  "updateUser env d req =
     (case repo_findOne env d ''id'' (Some (num_json (param_id env req))) of
        Inl e \<Rightarrow> (catch_unique ''Failed to update user'' e, d)
      | Inr None \<Rightarrow> (failure 404 ''User not found'', d)
      | Inr (Some user) \<Rightarrow>
          (case validate env (plainToClass env (JObj (merge user (spread (req_body req))))) of
             Inl e \<Rightarrow> (catch_unique ''Failed to update user'' e, d)
           | Inr errors \<Rightarrow>
               if errors \<noteq> [] then (validation_failed errors, d)
               else (case repo_update env d (param_id env req) (req_body req) of
                       Inl e \<Rightarrow> (catch_unique ''Failed to update user'' e, d)
                     | Inr d' \<Rightarrow>
                         (case repo_findOne env d' ''id'' (Some (num_json (param_id env req))) of
                            Inl e \<Rightarrow> (catch_unique ''Failed to update user'' e, d')
                          | Inr None \<Rightarrow>
                              (server_error ''Failed to update user''
                                 (OtherError ''Cannot destructure property of null''), d')
                          | Inr (Some updatedUser) \<Rightarrow>
                              (reply 200 [(''success'', JBool True),
                                          (''message'', JStr ''User updated successfully''),
                                          (''data'', JObj (omit_password updatedUser))], d')))))"

subsection \<open>\<open>authController\<close>\<close>

text \<open>Destructuring \<open>req.body\<close> throws when the body is \<open>null\<close>; of any other value that
  is not an object every property read is \<open>undefined\<close>.\<close>

definition register :: "'db env \<Rightarrow> 'db \<Rightarrow> http_request \<Rightarrow> response \<times> 'db" where
  "register env d req =
     (if req_body req = JNull
      then (server_error ''Failed to register user''
              (OtherError ''Cannot destructure property of null''), d)
      else
        let email = field ''email'' (req_body req); password = field ''password'' (req_body req);
            name = field ''name'' (req_body req); age = field ''age'' (req_body req);
            city = field ''city'' (req_body req)
        in case repo_findOne env d ''email'' email of
             Inl e \<Rightarrow> (server_error ''Failed to register user'' e, d)
           | Inr (Some existingUser) \<Rightarrow> (failure 400 ''User with this email already exists'', d)
           | Inr None \<Rightarrow>
               (case bcrypt_hash env password 12 of
                  Inl e \<Rightarrow> (server_error ''Failed to register user'' e, d)
                | Inr hashedPassword \<Rightarrow>
                    let userData = plainToClass env
                          (JObj (literal [(''email'', email), (''password'', Some (JStr hashedPassword)),
                                          (''name'', name), (''age'', age), (''city'', city)]))
                    in case validate env userData of
                         Inl e \<Rightarrow> (server_error ''Failed to register user'' e, d)
                       | Inr errors \<Rightarrow>
                           if errors \<noteq> [] then (validation_failed errors, d)
                           else (case repo_save env d (repo_create env userData) of
                                   Inl e \<Rightarrow> (server_error ''Failed to register user'' e, d)
                                 | Inr (savedUser, d') \<Rightarrow>
                                     let token = generateToken env (map_of savedUser ''id'')
                                                   (map_of savedUser ''email'')
                                     in (reply 201
                                           [(''success'', JBool True),
                                            (''message'', JStr ''User registered successfully''),
                                            (''data'', JObj [(''user'', JObj (omit_password savedUser)),
                                                             (''token'', JStr token)])], d'))))"

definition login :: "'db env \<Rightarrow> 'db \<Rightarrow> http_request \<Rightarrow> response \<times> 'db" where
  "login env d req =
     (if req_body req = JNull
      then (server_error ''Failed to login'' (OtherError ''Cannot destructure property of null''), d)
      else
        let email = field ''email'' (req_body req); password = field ''password'' (req_body req)
        in if falsy email \<or> falsy password
           then (failure 400 ''Email and password are required'', d)
           else (case repo_findOne env d ''email'' email of
                   Inl e \<Rightarrow> (server_error ''Failed to login'' e, d)
                 | Inr None \<Rightarrow> (failure 401 ''Invalid email or password'', d)
                 | Inr (Some user) \<Rightarrow>
                     (case bcrypt_compare env password (map_of user ''password'') of
                        Inl e \<Rightarrow> (server_error ''Failed to login'' e, d)
                      | Inr False \<Rightarrow> (failure 401 ''Invalid email or password'', d)
                      | Inr True \<Rightarrow>
                          let token = generateToken env (map_of user ''id'') (map_of user ''email'')
                          in (reply 200
                                [(''success'', JBool True), (''message'', JStr ''Login successful''),
                                 (''data'', JObj [(''user'', JObj (omit_password user)),
                                                  (''token'', JStr token)])], d))))"

definition getProfile :: "'db env \<Rightarrow> 'db \<Rightarrow> http_request \<Rightarrow> response \<times> 'db" where
  "getProfile env d req =
     (case req_user req of
        None \<Rightarrow> (failure 401 ''User not authenticated'', d)
      | Some user \<Rightarrow>
          (reply 200 [(''success'', JBool True), (''data'', JObj (omit_password user))], d))"

subsection \<open>What a response returns\<close>

definition succeeded :: "response \<Rightarrow> bool" where
  "succeeded res \<longleftrightarrow> field ''success'' (res_body res) = Some (JBool True)"

text \<open>No property named \<open>password\<close> anywhere in a value, at any depth.\<close>

fun password_free :: "json \<Rightarrow> bool" where
  "password_free (JObj props) = list_all (\<lambda>(k, v). k \<noteq> ''password'' \<and> password_free v) props"
| "password_free (JArr xs) = list_all password_free xs"
| "password_free j = True"

text \<open>A value of a column of \<open>models/User.ts\<close>: a number, a string (also for a date, as
  \<open>res.json\<close> writes it) or \<open>null\<close>.\<close>

fun scalar :: "json \<Rightarrow> bool" where
  "scalar (JArr xs) = False"
| "scalar (JObj props) = False"
| "scalar j = True"

definition entity :: "obj \<Rightarrow> bool" where
  "entity user = list_all (\<lambda>(k, v). scalar v) user"

text \<open>The user data of a response body: \<open>data\<close> itself, the elements of the array
  \<open>data\<close>, or \<open>data.user\<close>.\<close>

definition data_user :: "response \<Rightarrow> json option" where
  "data_user res = field ''data'' (res_body res)"

definition data_users :: "response \<Rightarrow> json list option" where
  "data_users res = (case field ''data'' (res_body res) of Some (JArr us) \<Rightarrow> Some us | _ \<Rightarrow> None)"

definition data_dot_user :: "response \<Rightarrow> json option" where
  "data_dot_user res =
     (case field ''data'' (res_body res) of Some dat \<Rightarrow> field ''user'' dat | None \<Rightarrow> None)"

text \<open>
  The users a controller can answer with: the \<open>req.user\<close> that the middleware has set, or
  a user that a call of the repository has returned.
\<close>

definition handed_out :: "'db env \<Rightarrow> http_request \<Rightarrow> obj \<Rightarrow> bool" where
  "handed_out env req user \<longleftrightarrow>
     req_user req = Some user
   \<or> (\<exists>d x d'. repo_save env d x = Inr (user, d'))
   \<or> (\<exists>d k v. repo_findOne env d k v = Inr (Some user))
   \<or> (\<exists>d q users n. repo_getManyAndCount env d q = Inr (users, n) \<and> user \<in> set users)"











subsection \<open>No response carries the password\<close>

lemma password_free_filter:
  "list_all (\<lambda>(k, v). k \<noteq> ''password'' \<and> password_free v)
      (filter (\<lambda>(k, v). k \<noteq> ''password'') user)
     \<longleftrightarrow> list_all (\<lambda>(k, v). k = ''password'' \<or> password_free v) user"
  by (induction user) auto

lemma omit_password_filter:
  "omit_password user = filter (\<lambda>(k, v). k \<noteq> ''password'') user"
  by (simp add: omit_password_def)

lemma password_free_num: "password_free (num_json n)"
  by (cases n) (simp_all add: num_json_def)

lemma password_free_failure [simp]:
  "password_free (res_body (failure code msg))"
  "password_free (res_body (server_error msg e))"
  "password_free (res_body (catch_unique msg e))"
  "password_free (res_body (validation_failed errors))"
  by (cases e; simp add: failure_def server_error_def validation_failed_def reply_def)+

lemma not_succeeded_failure [simp]:
  "\<not> succeeded (failure code msg)"
  "\<not> succeeded (server_error msg e)"
  "\<not> succeeded (catch_unique msg e)"
  "\<not> succeeded (validation_failed errors)"
  by (cases e; simp add: succeeded_def failure_def server_error_def validation_failed_def
        reply_def field_def)+

lemma createUser_failed:
  "\<not> succeeded (fst (createUser env d req)) \<Longrightarrow> password_free (res_body (fst (createUser env d req)))"
  by (auto simp: createUser_def Let_def reply_def succeeded_def field_def
      split: sum.splits if_splits prod.splits)

lemma createUser_data:
  assumes "succeeded (fst (createUser env d req))"
  shows "\<exists>user. handed_out env req user
     \<and> data_user (fst (createUser env d req))
         = Some (JObj (filter (\<lambda>(k, v). k \<noteq> ''password'') user))
     \<and> (password_free (res_body (fst (createUser env d req)))
          \<longleftrightarrow> list_all (\<lambda>(k, v). k = ''password'' \<or> password_free v) user)"
proof -
  from assms obtain user d' where
    saved: "repo_save env d (repo_create env (plainToClass env (req_body req))) = Inr (user, d')"
    and res: "fst (createUser env d req)
      = reply 201 [(''success'', JBool True), (''message'', JStr ''User created successfully''),
                   (''data'', JObj (omit_password user))]"
    by (auto simp: createUser_def Let_def split: sum.splits if_splits prod.splits)
  from saved have "handed_out env req user" by (auto simp: handed_out_def)
  then show ?thesis
    unfolding res
    by (intro exI [of _ user])
      (simp add: data_user_def reply_def field_def password_free_filter omit_password_filter)
qed

lemma getUsers_failed:
  "\<not> succeeded (fst (getUsers env d req)) \<Longrightarrow> password_free (res_body (fst (getUsers env d req)))"
  by (auto simp: getUsers_def Let_def reply_def succeeded_def field_def
      split: sum.splits if_splits prod.splits)

lemma getUsers_data:
  assumes "succeeded (fst (getUsers env d req))"
  shows "\<exists>users. list_all (handed_out env req) users
     \<and> data_users (fst (getUsers env d req))
         = Some (map (\<lambda>user. JObj (filter (\<lambda>(k, v). k \<noteq> ''password'') user)) users)
     \<and> (password_free (res_body (fst (getUsers env d req)))
          \<longleftrightarrow> list_all (list_all (\<lambda>(k, v). k = ''password'' \<or> password_free v)) users)"
proof -
  from assms obtain users n q pageNum limitNum where
    found: "repo_getManyAndCount env d q = Inr (users, n)"
    and res: "fst (getUsers env d req)
      = reply 200 [(''success'', JBool True),
                   (''data'', JArr (map (\<lambda>user. JObj (omit_password user)) users)),
                   (''pagination'',
                      JObj [(''page'', num_json pageNum), (''limit'', num_json limitNum),
                            (''total'', JNum n),
                            (''totalPages'', num_json (totalPages n limitNum))])]"
    by (auto simp: getUsers_def Let_def split: sum.splits if_splits prod.splits)
  have "handed_out env req user" if "user \<in> set users" for user
    unfolding handed_out_def using found that by blast
  then have "list_all (handed_out env req) users"
    by (simp add: list_all_iff)
  moreover have "list_all password_free (map (\<lambda>user. JObj (omit_password user)) users)
      \<longleftrightarrow> list_all (list_all (\<lambda>(k, v). k = ''password'' \<or> password_free v)) users"
    by (induction users) (simp_all add: password_free_filter omit_password_filter)
  ultimately show ?thesis
    unfolding res
    by (intro exI [of _ users])
      (simp add: data_users_def reply_def field_def omit_password_filter password_free_num)
qed

lemma getUserById_failed:
  "\<not> succeeded (fst (getUserById env d req)) \<Longrightarrow> password_free (res_body (fst (getUserById env d req)))"
  by (auto simp: getUserById_def Let_def reply_def succeeded_def field_def
      split: sum.splits if_splits prod.splits option.splits)

lemma getUserById_data:
  assumes "succeeded (fst (getUserById env d req))"
  shows "\<exists>user. handed_out env req user
     \<and> data_user (fst (getUserById env d req))
         = Some (JObj (filter (\<lambda>(k, v). k \<noteq> ''password'') user))
     \<and> (password_free (res_body (fst (getUserById env d req)))
          \<longleftrightarrow> list_all (\<lambda>(k, v). k = ''password'' \<or> password_free v) user)"
proof -
  from assms obtain user where
    found: "repo_findOne env d ''id'' (Some (num_json (param_id env req))) = Inr (Some user)"
    and res: "fst (getUserById env d req)
      = reply 200 [(''success'', JBool True), (''data'', JObj (omit_password user))]"
    by (auto simp: getUserById_def Let_def split: sum.splits if_splits prod.splits option.splits)
  from found have "handed_out env req user" by (auto simp: handed_out_def)
  then show ?thesis
    unfolding res
    by (intro exI [of _ user])
      (simp add: data_user_def reply_def field_def password_free_filter omit_password_filter)
qed

lemma updateUser_failed:
  "\<not> succeeded (fst (updateUser env d req)) \<Longrightarrow> password_free (res_body (fst (updateUser env d req)))"
  by (auto simp: updateUser_def Let_def reply_def succeeded_def field_def
      split: sum.splits if_splits prod.splits option.splits)

lemma updateUser_data:
  assumes "succeeded (fst (updateUser env d req))"
  shows "\<exists>user. handed_out env req user
     \<and> data_user (fst (updateUser env d req))
         = Some (JObj (filter (\<lambda>(k, v). k \<noteq> ''password'') user))
     \<and> (password_free (res_body (fst (updateUser env d req)))
          \<longleftrightarrow> list_all (\<lambda>(k, v). k = ''password'' \<or> password_free v) user)"
proof -
  from assms obtain user d1 where
    found: "repo_findOne env d1 ''id'' (Some (num_json (param_id env req))) = Inr (Some user)"
    and res: "fst (updateUser env d req)
      = reply 200 [(''success'', JBool True), (''message'', JStr ''User updated successfully''),
                   (''data'', JObj (omit_password user))]"
    by (auto simp: updateUser_def Let_def split: sum.splits if_splits prod.splits option.splits)
  from found have "handed_out env req user" by (auto simp: handed_out_def)
  then show ?thesis
    unfolding res
    by (intro exI [of _ user])
      (simp add: data_user_def reply_def field_def password_free_filter omit_password_filter)
qed

lemma register_failed:
  "\<not> succeeded (fst (register env d req)) \<Longrightarrow> password_free (res_body (fst (register env d req)))"
  by (auto simp: register_def Let_def reply_def succeeded_def field_def
      split: sum.splits if_splits prod.splits option.splits)

lemma register_data:
  assumes "succeeded (fst (register env d req))"
  shows "\<exists>user. handed_out env req user
     \<and> data_dot_user (fst (register env d req))
         = Some (JObj (filter (\<lambda>(k, v). k \<noteq> ''password'') user))
     \<and> (password_free (res_body (fst (register env d req)))
          \<longleftrightarrow> list_all (\<lambda>(k, v). k = ''password'' \<or> password_free v) user)"
proof -
  from assms obtain user x d1 token where
    saved: "repo_save env d x = Inr (user, d1)"
    and res: "fst (register env d req)
      = reply 201 [(''success'', JBool True), (''message'', JStr ''User registered successfully''),
                   (''data'', JObj [(''user'', JObj (omit_password user)), (''token'', JStr token)])]"
    by (auto simp: register_def Let_def split: sum.splits if_splits prod.splits option.splits)
  from saved have "handed_out env req user" by (auto simp: handed_out_def)
  then show ?thesis
    unfolding res
    by (intro exI [of _ user])
      (simp add: data_dot_user_def reply_def field_def password_free_filter omit_password_filter)
qed

lemma login_failed:
  "\<not> succeeded (fst (login env d req)) \<Longrightarrow> password_free (res_body (fst (login env d req)))"
  by (auto simp: login_def Let_def reply_def succeeded_def field_def
      split: sum.splits if_splits prod.splits option.splits bool.splits)

lemma login_data:
  assumes "succeeded (fst (login env d req))"
  shows "\<exists>user. handed_out env req user
     \<and> data_dot_user (fst (login env d req))
         = Some (JObj (filter (\<lambda>(k, v). k \<noteq> ''password'') user))
     \<and> (password_free (res_body (fst (login env d req)))
          \<longleftrightarrow> list_all (\<lambda>(k, v). k = ''password'' \<or> password_free v) user)"
proof -
  from assms obtain user token where
    found: "repo_findOne env d ''email'' (field ''email'' (req_body req)) = Inr (Some user)"
    and res: "fst (login env d req)
      = reply 200 [(''success'', JBool True), (''message'', JStr ''Login successful''),
                   (''data'', JObj [(''user'', JObj (omit_password user)), (''token'', JStr token)])]"
    by (auto simp: login_def Let_def split: sum.splits if_splits prod.splits option.splits bool.splits)
  from found have "handed_out env req user" by (auto simp: handed_out_def)
  then show ?thesis
    unfolding res
    by (intro exI [of _ user])
      (simp add: data_dot_user_def reply_def field_def password_free_filter omit_password_filter)
qed

lemma getProfile_failed:
  "\<not> succeeded (fst (getProfile env d req)) \<Longrightarrow> password_free (res_body (fst (getProfile env d req)))"
  by (auto simp: getProfile_def Let_def reply_def succeeded_def field_def
      split: sum.splits if_splits prod.splits option.splits)

lemma getProfile_data:
  assumes "succeeded (fst (getProfile env d req))"
  shows "\<exists>user. handed_out env req user
     \<and> data_user (fst (getProfile env d req))
         = Some (JObj (filter (\<lambda>(k, v). k \<noteq> ''password'') user))
     \<and> (password_free (res_body (fst (getProfile env d req)))
          \<longleftrightarrow> list_all (\<lambda>(k, v). k = ''password'' \<or> password_free v) user)"
proof -
  from assms obtain user where
    found: "req_user req = Some user"
    and res: "fst (getProfile env d req)
      = reply 200 [(''success'', JBool True), (''data'', JObj (omit_password user))]"
    by (auto simp: getProfile_def Let_def split: sum.splits if_splits prod.splits option.splits)
  from found have "handed_out env req user" by (auto simp: handed_out_def)
  then show ?thesis
    unfolding res
    by (intro exI [of _ user])
      (simp add: data_user_def reply_def field_def password_free_filter omit_password_filter)
qed


text \<open>
  Where the users handed out are entities of \<open>models/User.ts\<close>, no response has a
  property named \<open>password\<close> at any depth.
\<close>

lemma entity_password_free:
  "entity user \<Longrightarrow> list_all (\<lambda>(k, v). k = ''password'' \<or> password_free v) user"
proof (induction user)
  case Nil
  then show ?case by simp
next
  case (Cons p user)
  obtain k v where p: "p = (k, v)" by (cases p)
  from Cons.prems have "scalar v" by (simp add: entity_def p)
  then have "password_free v" by (cases v) simp_all
  with Cons show ?case by (simp add: entity_def p)
qed

lemma entities_password_free:
  assumes "\<And>user. handed_out env req user \<Longrightarrow> entity user"
  shows "password_free (res_body (fst (createUser env d req)))"
    and "password_free (res_body (fst (getUsers env d req)))"
    and "password_free (res_body (fst (getUserById env d req)))"
    and "password_free (res_body (fst (updateUser env d req)))"
    and "password_free (res_body (fst (register env d req)))"
    and "password_free (res_body (fst (login env d req)))"
    and "password_free (res_body (fst (getProfile env d req)))"
proof -
  from assms entity_password_free
  have flat: "\<And>user. handed_out env req user
      \<Longrightarrow> list_all (\<lambda>(k, v). k = ''password'' \<or> password_free v) user"
    by blast
  show "password_free (res_body (fst (createUser env d req)))"
  proof (cases "succeeded (fst (createUser env d req))")
    case True
    from createUser_data [OF True] flat show ?thesis by auto
  next
    case False
    then show ?thesis by (rule createUser_failed)
  qed
  show "password_free (res_body (fst (getUsers env d req)))"
  proof (cases "succeeded (fst (getUsers env d req))")
    case True
    from getUsers_data [OF True] flat show ?thesis by (auto simp: list_all_iff)
  next
    case False
    then show ?thesis by (rule getUsers_failed)
  qed
  show "password_free (res_body (fst (getUserById env d req)))"
  proof (cases "succeeded (fst (getUserById env d req))")
    case True
    from getUserById_data [OF True] flat show ?thesis by auto
  next
    case False
    then show ?thesis by (rule getUserById_failed)
  qed
  show "password_free (res_body (fst (updateUser env d req)))"
  proof (cases "succeeded (fst (updateUser env d req))")
    case True
    from updateUser_data [OF True] flat show ?thesis by auto
  next
    case False
    then show ?thesis by (rule updateUser_failed)
  qed
  show "password_free (res_body (fst (register env d req)))"
  proof (cases "succeeded (fst (register env d req))")
    case True
    from register_data [OF True] flat show ?thesis by auto
  next
    case False
    then show ?thesis by (rule register_failed)
  qed
  show "password_free (res_body (fst (login env d req)))"
  proof (cases "succeeded (fst (login env d req))")
    case True
    from login_data [OF True] flat show ?thesis by auto
  next
    case False
    then show ?thesis by (rule login_failed)
  qed
  show "password_free (res_body (fst (getProfile env d req)))"
  proof (cases "succeeded (fst (getProfile env d req))")
    case True
    from getProfile_data [OF True] flat show ?thesis by auto
  next
    case False
    then show ?thesis by (rule getProfile_failed)
  qed
qed




text \<open>The test is not idle: a password one level down is found.\<close>

lemma nested_password_found:
  "\<not> password_free (JObj [(''success'', JBool True),
                           (''data'', JObj [(''user'', JObj [(''password'', JStr ''hunter2'')])])])"
  by simp



end
